theory Spec2Isabelle
  imports Complex_Main
begin

section \<open>JavaScript numbers\<close>

text \<open>
  A JavaScript number is an IEEE double. The model keeps the four kinds of value the
  code distinguishes (\<open>isFinite\<close>, \<open>Number.isFinite\<close>, comparisons with \<open>NaN\<close>): a finite
  value, the two infinities and \<open>NaN\<close>. A finite value is carried as the real number it
  denotes. Comparisons of numbers are exact in the language and are written out below.
  What the language computes by rounding (products, \<open>Math.exp\<close>, \<open>Math.pow\<close>, the number
  a decimal string denotes) is not fixed here: it is a parameter of the functions that use
  it, see \<open>arith\<close> below.
\<close>

datatype jsnum = Fin real | PosInf | NegInf | NaN

fun isFinite :: "jsnum \<Rightarrow> bool" where
  "isFinite (Fin x) = True"
| "isFinite PosInf = False"
| "isFinite NegInf = False"
| "isFinite NaN = False"

text \<open>
  The difference \<open>a - b\<close> is used by the code only as the result of a sort comparator, of
  which \<open>sort\<close> reads the sign. The sign of the difference of two doubles is the sign of
  the exact difference (a difference that overflows is an infinity of that sign, and the
  difference of two distinct doubles does not round to zero), so the exact difference,
  made an infinity from \<open>2^1024 - 2^970\<close> on (the least magnitude that rounds to
  infinity), stands for it.
\<close>

definition DBL_OVERFLOW :: real where
  "DBL_OVERFLOW = 2 ^ 1024 - 2 ^ 970"

definition exact_result :: "real \<Rightarrow> jsnum" where
  "exact_result x =
     (if DBL_OVERFLOW \<le> x then PosInf
      else if x \<le> - DBL_OVERFLOW then NegInf
      else Fin x)"

fun js_sub :: "jsnum \<Rightarrow> jsnum \<Rightarrow> jsnum" where
  "js_sub (Fin x) (Fin y) = exact_result (x - y)"
| "js_sub (Fin x) PosInf = NegInf"
| "js_sub (Fin x) NegInf = PosInf"
| "js_sub PosInf (Fin y) = PosInf"
| "js_sub NegInf (Fin y) = NegInf"
| "js_sub PosInf PosInf = NaN"
| "js_sub PosInf NegInf = PosInf"
| "js_sub NegInf PosInf = NegInf"
| "js_sub NegInf NegInf = NaN"
| "js_sub NaN b = NaN"
| "js_sub a NaN = NaN"

text \<open>The comparisons \<open>a <= b\<close> and \<open>a < b\<close>; both are false when an operand is \<open>NaN\<close>.\<close>

fun js_le :: "jsnum \<Rightarrow> jsnum \<Rightarrow> bool" where
  "js_le (Fin x) (Fin y) = (x \<le> y)"
| "js_le (Fin x) PosInf = True"
| "js_le (Fin x) NegInf = False"
| "js_le PosInf (Fin y) = False"
| "js_le NegInf (Fin y) = True"
| "js_le PosInf PosInf = True"
| "js_le PosInf NegInf = False"
| "js_le NegInf PosInf = True"
| "js_le NegInf NegInf = True"
| "js_le NaN b = False"
| "js_le a NaN = False"

fun js_lt :: "jsnum \<Rightarrow> jsnum \<Rightarrow> bool" where
  "js_lt (Fin x) (Fin y) = (x < y)"
| "js_lt (Fin x) PosInf = True"
| "js_lt (Fin x) NegInf = False"
| "js_lt PosInf (Fin y) = False"
| "js_lt NegInf (Fin y) = True"
| "js_lt PosInf PosInf = False"
| "js_lt PosInf NegInf = False"
| "js_lt NegInf PosInf = True"
| "js_lt NegInf NegInf = False"
| "js_lt NaN b = False"
| "js_lt a NaN = False"

text \<open>\<open>x || 0\<close> on a number: \<open>NaN\<close> and zero are falsy.\<close>

definition or_zero :: "jsnum \<Rightarrow> jsnum" where
  "or_zero x = (if x = NaN \<or> x = Fin 0 then Fin 0 else x)"

section \<open>Arithmetic of the engine\<close>

text \<open>
  The operations whose results the engine rounds: the product \<open>a * b\<close>, \<open>Math.exp(x)\<close> and
  \<open>Math.pow(10, x)\<close>. The resolver takes them as a parameter, so that what is proved of it
  for every \<open>arith\<close> holds of the doubles of any engine.
\<close>

record arith =
  mul :: "jsnum \<Rightarrow> jsnum \<Rightarrow> jsnum"
  Math_exp :: "jsnum \<Rightarrow> jsnum"
  Math_pow10 :: "jsnum \<Rightarrow> jsnum"

text \<open>
  One arithmetic, for the runs on concrete inputs: the exact real result, an infinity
  when it overflows, with no rounding and no underflow. It agrees with doubles wherever
  the exact result is a double (as for the products of the integers used below) and
  wherever the result overflows.
\<close>

fun exact_mul :: "jsnum \<Rightarrow> jsnum \<Rightarrow> jsnum" where
  "exact_mul (Fin x) (Fin y) = exact_result (x * y)"
| "exact_mul (Fin x) PosInf = (if x = 0 then NaN else if 0 < x then PosInf else NegInf)"
| "exact_mul (Fin x) NegInf = (if x = 0 then NaN else if 0 < x then NegInf else PosInf)"
| "exact_mul PosInf (Fin y) = (if y = 0 then NaN else if 0 < y then PosInf else NegInf)"
| "exact_mul NegInf (Fin y) = (if y = 0 then NaN else if 0 < y then NegInf else PosInf)"
| "exact_mul PosInf PosInf = PosInf"
| "exact_mul PosInf NegInf = NegInf"
| "exact_mul NegInf PosInf = NegInf"
| "exact_mul NegInf NegInf = PosInf"
| "exact_mul NaN b = NaN"
| "exact_mul a NaN = NaN"

fun exact_exp :: "jsnum \<Rightarrow> jsnum" where
  "exact_exp (Fin x) = exact_result (exp x)"
| "exact_exp PosInf = PosInf"
| "exact_exp NegInf = Fin 0"
| "exact_exp NaN = NaN"

fun exact_pow10 :: "jsnum \<Rightarrow> jsnum" where
  "exact_pow10 (Fin x) = exact_result (10 powr x)"
| "exact_pow10 PosInf = PosInf"
| "exact_pow10 NegInf = Fin 0"
| "exact_pow10 NaN = NaN"

definition exact_arith :: arith where
  "exact_arith = \<lparr>mul = exact_mul, Math_exp = exact_exp, Math_pow10 = exact_pow10\<rparr>"

section \<open>Request bodies\<close>

text \<open>
  The request body that \<open>express.json()\<close> hands to the route is a JSON value; it is also what
  \<open>postJson\<close> serialises towards the model service. An object is the list of its
  properties, with distinct keys.
\<close>

datatype json =
    JNull
  | JBool bool
  | JNum jsnum
  | JStr string
  | JArr "json list"
  | JObj "(string \<times> json) list"

datatype js_error = TransportError string | TypeError string

text \<open>
  \<open>features.procedure_area\<close>: reading a property of \<open>null\<close> throws a \<open>TypeError\<close> (with the
  message Node prints); a value without that property gives \<open>undefined\<close>, here \<open>None\<close>.
\<close>

fun get_property :: "json \<Rightarrow> string \<Rightarrow> js_error + json option" where
  "get_property JNull k =
     Inl (TypeError (''Cannot read properties of null (reading '' @ [CHR 0x27] @ k @ [CHR 0x27] @ '')''))"
| "get_property (JObj kvs) k = Inr (map_of kvs k)"
| "get_property v k = Inr None"

text \<open>
  \<open>Number(v)\<close>. On \<open>undefined\<close>, \<open>null\<close>, a boolean and a number the conversion is written
  out. On a string, an array or an object it is the language's \<open>ToNumber\<close> (the numeric
  string grammar; for an array or object, after the conversion to a primitive value, which
  may throw): that part is the parameter \<open>conv\<close>, so every statement below holds for
  whatever it computes.
\<close>

fun Number_js :: "(json \<Rightarrow> js_error + jsnum) \<Rightarrow> json option \<Rightarrow> js_error + jsnum" where
  "Number_js conv None = Inr NaN"
| "Number_js conv (Some JNull) = Inr (Fin 0)"
| "Number_js conv (Some (JBool b)) = Inr (Fin (if b then 1 else 0))"
| "Number_js conv (Some (JNum x)) = Inr x"
| "Number_js conv (Some v) = conv v"

section \<open>The plausibility resolver\<close>

record candidate =
  c_n :: jsnum
  c_rule :: string

text \<open>\<open>s.includes(sub)\<close>: \<open>sub\<close> occurs in \<open>s\<close> as a contiguous block.\<close>

fun includes_js :: "string \<Rightarrow> string \<Rightarrow> bool" where
  "includes_js [] sub = (sub = [])"
| "includes_js (c # s) sub = (take (length sub) (c # s) = sub \<or> includes_js s sub)"

text \<open>
  \<open>Array.prototype.sort(cmp)\<close> is stable, and puts \<open>a\<close> after \<open>b\<close> only when \<open>cmp(a, b)\<close> is
  positive (a \<open>NaN\<close> from the comparator counts as zero). For a consistent comparator the
  result is the stable sorted arrangement, computed here by insertion from the right.
\<close>

fun js_positive :: "jsnum \<Rightarrow> bool" where
  "js_positive (Fin d) = (0 < d)"
| "js_positive PosInf = True"
| "js_positive NegInf = False"
| "js_positive NaN = False"

fun insert_sorted :: "('a \<Rightarrow> 'a \<Rightarrow> jsnum) \<Rightarrow> 'a \<Rightarrow> 'a list \<Rightarrow> 'a list" where
  "insert_sorted cmp x [] = [x]"
| "insert_sorted cmp x (y # ys) =
     (if js_positive (cmp x y) then y # insert_sorted cmp x ys else x # y # ys)"

definition js_sort :: "('a \<Rightarrow> 'a \<Rightarrow> jsnum) \<Rightarrow> 'a list \<Rightarrow> 'a list" where
  "js_sort cmp xs = foldr (insert_sorted cmp) xs []"

text \<open>
  A comparator is consistent on a set when it orders the set as a total preorder: of two
  elements at most one is to be put after the other, and "need not come after" is
  transitive.
\<close>

definition consistent_on :: "('a \<Rightarrow> 'a \<Rightarrow> jsnum) \<Rightarrow> 'a set \<Rightarrow> bool" where
  "consistent_on cmp S =
     ((\<forall>a \<in> S. \<forall>b \<in> S. js_positive (cmp a b) \<longrightarrow> \<not> js_positive (cmp b a)) \<and>
      (\<forall>a \<in> S. \<forall>b \<in> S. \<forall>c \<in> S.
         \<not> js_positive (cmp a b) \<and> \<not> js_positive (cmp b c) \<longrightarrow> \<not> js_positive (cmp a c)))"

definition PL_MIN :: jsnum where "PL_MIN = Fin 50000"
definition PL_MAX :: jsnum where "PL_MAX = Fin 2000000000"

text \<open>\<open>push(val, rule)\<close>: only a finite value becomes a candidate.\<close>

definition push :: "candidate list \<Rightarrow> jsnum \<times> string \<Rightarrow> candidate list" where
  "push cands vr =
     (case vr of (val, r) \<Rightarrow>
        if isFinite val then cands @ [\<lparr>c_n = val, c_rule = r\<rparr>] else cands)"

text \<open>The values handed to \<open>push\<close>, in the order of the calls.\<close>

definition generated :: "arith \<Rightarrow> jsnum \<Rightarrow> jsnum \<Rightarrow> (jsnum \<times> string) list" where
  "generated ar rawNumber area =
     [(rawNumber, ''raw'')]
     @ (if js_lt (Fin 0) area then
          [(mul ar rawNumber area, ''per_sqm''),
           (mul ar (Math_exp ar rawNumber) area, ''exp_per_sqm''),
           (mul ar (Math_pow10 ar rawNumber) area, ''pow10_per_sqm'')]
        else [])
     @ [(Math_exp ar rawNumber, ''exp''),
        (Math_pow10 ar rawNumber, ''pow10''),
        (mul ar rawNumber (Fin 1000), ''x1000'')]"

definition plausible_of :: "candidate list \<Rightarrow> candidate list" where
  "plausible_of cands = filter (\<lambda>c. js_le PL_MIN (c_n c) \<and> js_le (c_n c) PL_MAX) cands"

definition bonus :: "candidate \<Rightarrow> real" where
  "bonus c = (if includes_js (c_rule c) ''per_sqm'' then 1 else 0)"

definition plausible_cmp :: "candidate \<Rightarrow> candidate \<Rightarrow> jsnum" where
  "plausible_cmp a b =
     (let aBonus = bonus a; bBonus = bonus b in
      if aBonus \<noteq> bBonus then Fin (bBonus - aBonus) else js_sub (c_n b) (c_n a))"

definition largest_cmp :: "candidate \<Rightarrow> candidate \<Rightarrow> jsnum" where
  "largest_cmp a b = js_sub (c_n b) (c_n a)"

definition select :: "jsnum \<Rightarrow> candidate list \<Rightarrow> candidate" where
  "select rawNumber cands =
     (let plausible = plausible_of cands in
      if plausible \<noteq> [] then hd (js_sort plausible_cmp plausible)
      else (case js_sort largest_cmp cands of
              c # rest \<Rightarrow> c
            | [] \<Rightarrow> \<lparr>c_n = rawNumber, c_rule = ''raw''\<rparr>))"

definition read_area :: "(json \<Rightarrow> js_error + jsnum) \<Rightarrow> json \<Rightarrow> js_error + jsnum" where
  "read_area conv features =
     (case get_property features ''procedure_area'' of
        Inl e \<Rightarrow> Inl e
      | Inr v \<Rightarrow> (case Number_js conv v of Inl e \<Rightarrow> Inl e | Inr x \<Rightarrow> Inr (or_zero x)))"

definition choosePlausibleTotal ::
  "arith \<Rightarrow> (json \<Rightarrow> js_error + jsnum) \<Rightarrow> jsnum \<Rightarrow> json \<Rightarrow> js_error + candidate" where
  "choosePlausibleTotal ar conv rawNumber features =
     (case read_area conv features of
        Inl e \<Rightarrow> Inl e
      | Inr area \<Rightarrow> Inr (select rawNumber (foldl push [] (generated ar rawNumber area))))"

subsection \<open>Vocabulary of the statements\<close>

text \<open>
  A value in the plausible range, a rule tag containing \<open>per_sqm\<close>, and the candidate that
  \<open>push\<close> builds from a value and a rule.
\<close>

definition in_range :: "jsnum \<Rightarrow> bool" where
  "in_range v = (js_le PL_MIN v \<and> js_le v PL_MAX)"

definition per_sqm :: "string \<Rightarrow> bool" where
  "per_sqm r = includes_js r ''per_sqm''"

definition mk :: "jsnum \<times> string \<Rightarrow> candidate" where
  "mk vr = \<lparr>c_n = fst vr, c_rule = snd vr\<rparr>"

section \<open>The numeric extractor\<close>

subsection \<open>Response documents\<close>

text \<open>
  The extractor walks live objects and tells them apart by identity, so a response
  document is a value together with a heap: object number \<open>a\<close> is \<open>h ! a\<close>, and
  \<open>VRef a\<close> is a reference to it. Two references to one address are one object; a cycle is
  a reference back to an address on the way. An object is the list of its own properties in
  the order \<open>Object.entries\<close> lists them.
\<close>

datatype jsval = VNull | VBool bool | VNum jsnum | VStr string | VRef nat

datatype jsobj = Obj "(string \<times> jsval) list" | Arr "jsval list"

type_synonym heap = "jsobj list"

fun digit_char :: "nat \<Rightarrow> char" where
  "digit_char d = ''0123456789'' ! d"

fun index_key :: "nat \<Rightarrow> string" where
  "index_key i = (if i < 10 then [digit_char i] else index_key (i div 10) @ [digit_char (i mod 10)])"

text \<open>\<open>Object.entries(cur)\<close>; an array lists its elements under the keys \<open>"0"\<close>, \<open>"1"\<close>, ...\<close>

fun entries :: "jsobj \<Rightarrow> (string \<times> jsval) list" where
  "entries (Obj kvs) = kvs"
| "entries (Arr vs) = zip (map index_key [0 ..< length vs]) vs"

subsection \<open>The key pattern\<close>

text \<open>
  The regular expressions of the source are built from letters, sequence, alternative and
  option. \<open>rx_match r s\<close> lists what is left of \<open>s\<close> after each way of matching \<open>r\<close> at its
  start; \<open>rx_test\<close>, like \<open>RegExp.prototype.test\<close> on an unanchored pattern, tries every
  start position. Under the flag \<open>i\<close> two characters match when their canonical forms (upper
  case, for the letters a to z) agree.
\<close>

datatype rx = Eps | Lit char | Cat rx rx | Alt rx rx | Opt rx

definition canonicalize :: "char \<Rightarrow> char" where
  "canonicalize c =
     (case map_of (zip ''abcdefghijklmnopqrstuvwxyz'' ''ABCDEFGHIJKLMNOPQRSTUVWXYZ'') c of
        Some u \<Rightarrow> u
      | None \<Rightarrow> c)"

fun rx_match :: "rx \<Rightarrow> string \<Rightarrow> string list" where
  "rx_match Eps s = [s]"
| "rx_match (Lit c) [] = []"
| "rx_match (Lit c) (x # s) = (if canonicalize x = canonicalize c then [s] else [])"
| "rx_match (Cat r1 r2) s = concat (map (rx_match r2) (rx_match r1 s))"
| "rx_match (Alt r1 r2) s = rx_match r1 s @ rx_match r2 s"
| "rx_match (Opt r) s = rx_match r s @ [s]"

fun rx_test :: "rx \<Rightarrow> string \<Rightarrow> bool" where
  "rx_test r [] = (rx_match r [] \<noteq> [])"
| "rx_test r (c # s) = (rx_match r (c # s) \<noteq> [] \<or> rx_test r s)"

definition word :: "string \<Rightarrow> rx" where
  "word w = foldr (\<lambda>c r. Cat (Lit c) r) w Eps"

text \<open>\<open>/pred(i(ct|cted)?)?_?price|price|pred(i(ct|ction))|value|amount/i\<close>\<close>

definition KEY_PATTERN :: rx where
  "KEY_PATTERN =
     Alt (Cat (word ''pred'')
            (Cat (Opt (Cat (Lit CHR ''i'') (Opt (Alt (word ''ct'') (word ''cted'')))))
               (Cat (Opt (Lit CHR ''_'')) (word ''price''))))
    (Alt (word ''price'')
    (Alt (Cat (word ''pred'') (Cat (Lit CHR ''i'') (Alt (word ''ct'') (word ''ction''))))
    (Alt (word ''value'')
         (word ''amount''))))"

definition keyHit :: "string \<Rightarrow> bool" where
  "keyHit k = rx_test KEY_PATTERN k"

subsection \<open>Numeric strings\<close>

definition is_digit :: "char \<Rightarrow> bool" where
  "is_digit c = (c \<in> set ''0123456789'')"

text \<open>\<open>v.replace(/[, ]/g, '')\<close>: commas and space characters are removed.\<close>

definition strip_separators :: "string \<Rightarrow> string" where
  "strip_separators v = filter (\<lambda>c. c \<noteq> CHR '','' \<and> c \<noteq> CHR '' '') v"

text \<open>
  \<open>.match(/^(-?\d+(\.\d+)?)$/)\<close>: the whole string is an optional minus sign, digits, and
  optionally a point and digits. The result is the sign, the integer digits and the
  fraction digits.
\<close>

definition match_decimal :: "string \<Rightarrow> (bool \<times> string \<times> string) option" where
  "match_decimal s =
     (let neg = (s \<noteq> [] \<and> hd s = CHR ''-'');
          body = (if neg then tl s else s);
          ip = takeWhile is_digit body;
          rest = dropWhile is_digit body
      in if ip = [] then None
         else if rest = [] then Some (neg, ip, [])
         else if hd rest = CHR ''.'' \<and> tl rest \<noteq> [] \<and> list_all is_digit (tl rest)
              then Some (neg, ip, tl rest)
         else None)"

definition digit_value :: "char \<Rightarrow> nat" where
  "digit_value c = of_char c - of_char CHR ''0''"

definition digits_value :: "string \<Rightarrow> nat" where
  "digits_value ds = foldl (\<lambda>a c. 10 * a + digit_value c) 0 ds"

subsection \<open>The traversal\<close>

text \<open>
  The body of the \<open>for\<close> loop over the entries of one object. \<open>Inl x\<close> is the early
  \<open>return x\<close> on a hit key; \<open>Inr (stack, best)\<close> is the state after the last entry. The top
  of the stack (the end of the JavaScript array) is the head of the list.
\<close>

fun scan :: "(string \<Rightarrow> jsnum) \<Rightarrow> (string \<times> jsval) list \<Rightarrow> jsval list \<Rightarrow> jsnum option
               \<Rightarrow> jsnum + (jsval list \<times> jsnum option)" where
  "scan tonum [] stack best = Inr (stack, best)"
| "scan tonum ((k, VNull) # es) stack best = scan tonum es stack best"
| "scan tonum ((k, VNum v) # es) stack best =
     (if isFinite v then
        (if keyHit k then Inl v
         else scan tonum es stack (if best = None then Some v else best))
      else scan tonum es stack best)"
| "scan tonum ((k, VStr v) # es) stack best =
     (case match_decimal (strip_separators v) of
        Some m \<Rightarrow>
          (let num = tonum (strip_separators v) in
           if isFinite num then
             (if keyHit k then Inl num
              else scan tonum es stack (if best = None then Some num else best))
           else scan tonum es stack best)
      | None \<Rightarrow> scan tonum es stack best)"
| "scan tonum ((k, VRef a) # es) stack best = scan tonum es (VRef a # stack) best"
| "scan tonum ((k, VBool b) # es) stack best = scan tonum es stack best"

text \<open>
  The \<open>while\<close> loop. The visited set is kept in the order of insertion, as a JavaScript
  \<open>Set\<close> keeps it, and is returned with the result. A reference to an address outside the
  heap does not arise in a JavaScript heap; it is skipped like a non-object.
\<close>

function loop :: "(string \<Rightarrow> jsnum) \<Rightarrow> heap \<Rightarrow> jsval list \<Rightarrow> nat list \<Rightarrow> jsnum option
                   \<Rightarrow> jsnum option \<times> nat list" where
  "loop tonum h [] visited best = (best, visited)"
| "loop tonum h (VNull # stack) visited best = loop tonum h stack visited best"
| "loop tonum h (VBool b # stack) visited best = loop tonum h stack visited best"
| "loop tonum h (VNum x # stack) visited best = loop tonum h stack visited best"
| "loop tonum h (VStr s # stack) visited best = loop tonum h stack visited best"
| "loop tonum h (VRef a # stack) visited best =
     (if \<not> a < length h then loop tonum h stack visited best
      else if a \<in> set visited then loop tonum h stack visited best
      else (case scan tonum (entries (h ! a)) stack best of
              Inl v \<Rightarrow> (Some v, visited @ [a])
            | Inr (stack', best') \<Rightarrow> loop tonum h stack' (visited @ [a]) best'))"
  by pat_completeness auto
termination
proof (relation "measures [\<lambda>(tonum, h, stack, visited, best). card ({..< length h} - set visited),
                           \<lambda>(tonum, h, stack, visited, best). length stack]")
  fix tonum :: "string \<Rightarrow> jsnum" and h :: heap and a :: nat and stack :: "jsval list"
    and visited :: "nat list" and best :: "jsnum option"
    and stack' :: "jsval list" and best' :: "jsnum option"
  assume a: "\<not> \<not> a < length h" "a \<notin> set visited"
  have "{..< length h} - set (visited @ [a]) \<subset> {..< length h} - set visited"
    using a by auto
  then have "card ({..< length h} - set (visited @ [a])) < card ({..< length h} - set visited)"
    by (intro psubset_card_mono) auto
  then show "((tonum, h, stack', visited @ [a], best'), tonum, h, VRef a # stack, visited, best)
        \<in> measures [\<lambda>(tonum, h, stack, visited, best). card ({..< length h} - set visited),
                     \<lambda>(tonum, h, stack, visited, best). length stack]"
    by simp
qed auto

definition deepFindNumber :: "(string \<Rightarrow> jsnum) \<Rightarrow> heap \<Rightarrow> jsval \<Rightarrow> jsnum option" where
  "deepFindNumber tonum h obj = fst (loop tonum h [obj] [] None)"

subsection \<open>The number of a decimal string\<close>

text \<open>
  \<open>Number(m[1])\<close>, the double nearest to the decimal, is a parameter \<open>tonum\<close> of the
  extractor. For the runs on concrete documents: the exact value of the decimal, with no
  rounding, which agrees with \<open>Number\<close> wherever that value is a double.
\<close>

definition decimal_value :: "bool \<times> string \<times> string \<Rightarrow> jsnum" where
  "decimal_value m =
     (case m of (neg, ip, fp) \<Rightarrow>
        let mag = real (digits_value ip) + real (digits_value fp) / 10 ^ length fp
        in exact_result (if neg then - mag else mag))"

definition exact_number :: "string \<Rightarrow> jsnum" where
  "exact_number s = (case match_decimal s of Some m \<Rightarrow> decimal_value m | None \<Rightarrow> NaN)"

subsection \<open>Vocabulary of the statements\<close>

text \<open>
  These notions are stated on the documents themselves, not through the functions of the
  traversal. \<open>holds h a k v\<close>: object \<open>a\<close> of the heap has the value \<open>v\<close> under the key \<open>k\<close>
  (an array has its element number \<open>i\<close> under the decimal numeral of \<open>i\<close>).
  \<open>numeric_of tonum v\<close> is the number that the value \<open>v\<close> counts as: a finite number
  itself; for a string that, once its commas and spaces are removed, is a plain decimal,
  the number of that decimal when it is finite. \<open>has_hit\<close>: object \<open>a\<close> has the numeric
  value \<open>x\<close> under a hit key. \<open>path_avoiding h V a t\<close>: \<open>t\<close> is reached from \<open>a\<close> through
  references between objects of the heap, none of them in \<open>V\<close>. \<open>refs es\<close> lists the
  references among the values of the entries \<open>es\<close>.
\<close>

definition holds :: "heap \<Rightarrow> nat \<Rightarrow> string \<Rightarrow> jsval \<Rightarrow> bool" where
  "holds h a k v =
     (a < length h \<and>
      (case h ! a of
         Obj kvs \<Rightarrow> (k, v) \<in> set kvs
       | Arr vs \<Rightarrow> (\<exists>i < length vs. k = index_key i \<and> v = vs ! i)))"

fun numeric_of :: "(string \<Rightarrow> jsnum) \<Rightarrow> jsval \<Rightarrow> jsnum option" where
  "numeric_of tonum (VNum v) = (if isFinite v then Some v else None)"
| "numeric_of tonum (VStr v) =
     (if match_decimal (strip_separators v) \<noteq> None \<and> isFinite (tonum (strip_separators v))
      then Some (tonum (strip_separators v)) else None)"
| "numeric_of tonum v = None"


definition has_numeric :: "(string \<Rightarrow> jsnum) \<Rightarrow> heap \<Rightarrow> nat \<Rightarrow> jsnum \<Rightarrow> bool" where
  "has_numeric tonum h a x = (\<exists>k v. holds h a k v \<and> numeric_of tonum v = Some x)"


definition refs :: "(string \<times> jsval) list \<Rightarrow> jsval list" where
  "refs es = concat (map (\<lambda>kv. case snd kv of VRef a \<Rightarrow> [VRef a] | _ \<Rightarrow> []) es)"



subsection \<open>Four documents\<close>


definition cyclic_doc :: heap where
  "cyclic_doc =
     [Obj [(''self'', VRef 0), (''items'', VRef 1), (''again'', VRef 1)],
      Arr [VRef 0, VStr ''42'', VRef 1]]"



section \<open>The request dispatcher\<close>

subsection \<open>The runtime\<close>

text \<open>
  What the code takes from its runtime: the rounded arithmetic (\<open>arith\<close>), the number of
  a decimal string (\<open>string_number\<close>, the \<open>tonum\<close> of the extractor), \<open>ToNumber\<close> on
  strings and objects (see \<open>Number_js\<close>), \<open>JSON.parse\<close> (\<open>None\<close> when it throws), the
  configured \<open>MODEL_BASE\<close>, and the HTTPS client. A request is given the URL and the body
  value that \<open>JSON.stringify\<close> serialises; it either fails (an invalid URL, or the \<open>error\<close>
  event of the request) or ends with a status code and the collected response text. The
  model service may answer the same request differently each time, so the client threads
  a state \<open>'u\<close> of the outside world. Every request is taken to settle.
\<close>

datatype outcome = Failed js_error | Responded nat string

type_synonym document = "heap \<times> jsval"

record 'u runtime =
  arith :: arith
  string_number :: "string \<Rightarrow> jsnum"
  to_number :: "json \<Rightarrow> js_error + jsnum"
  JSON_parse :: "string \<Rightarrow> document option"
  MODEL_BASE :: string
  https_request :: "'u \<Rightarrow> string \<Rightarrow> json \<Rightarrow> outcome \<times> 'u"

text \<open>\<open>v || {}\<close> on a JSON value.\<close>

fun falsy :: "json \<Rightarrow> bool" where
  "falsy JNull = True"
| "falsy (JBool b) = (\<not> b)"
| "falsy (JNum x) = (x = NaN \<or> x = Fin 0)"
| "falsy (JStr s) = (s = [])"
| "falsy (JArr vs) = False"
| "falsy (JObj kvs) = False"

definition or_empty :: "json \<Rightarrow> json" where
  "or_empty v = (if falsy v then JObj [] else v)"

subsection \<open>\<open>postJson\<close>\<close>

text \<open>
  The handler of the \<open>end\<close> event: \<open>JSON.parse(data || '{}')\<close>, and the object
  \<open>{ raw: data }\<close> when that throws.
\<close>

definition parse_response :: "'u runtime \<Rightarrow> string \<Rightarrow> document" where
  "parse_response rt data =
     (case JSON_parse rt (if data = [] then ''{}'' else data) of
        Some json \<Rightarrow> json
      | None \<Rightarrow> ([Obj [(''raw'', VStr data)]], VRef 0))"

definition status_or_200 :: "nat \<Rightarrow> nat" where
  "status_or_200 code = (if code = 0 then 200 else code)"

definition postJson ::
  "'u runtime \<Rightarrow> string \<Rightarrow> json \<Rightarrow> 'u \<Rightarrow> (js_error + nat \<times> document) \<times> 'u" where
  "postJson rt urlString bodyObj u =
     (case https_request rt u urlString (or_empty bodyObj) of
        (Failed err, u') \<Rightarrow> (Inl err, u')
      | (Responded statusCode data, u') \<Rightarrow>
          (Inr (status_or_200 statusCode, parse_response rt data), u'))"

subsection \<open>\<open>tryAllShapes\<close>\<close>

record ProxyResult =
  status :: nat
  raw :: document
  predicted_price_raw :: "jsnum option"
  predicted_price :: "jsnum option"
  used_rule :: "string option"

text \<open>\<open>isFinite(x ?? NaN)\<close> on a number or \<open>null\<close>.\<close>

fun finite_or_null :: "jsnum option \<Rightarrow> bool" where
  "finite_or_null None = isFinite NaN"
| "finite_or_null (Some x) = isFinite x"

text \<open>
  The two nested \<open>for\<close> loops, over the (path, shape) pairs in their order. \<open>Some r\<close> is the
  \<open>return\<close> inside the loop, or the exception that ended it; \<open>None\<close> is the loop running out.
\<close>

fun attempts ::
  "'u runtime \<Rightarrow> json \<Rightarrow> (string \<times> json) list \<Rightarrow> 'u \<Rightarrow> (js_error + ProxyResult) option \<times> 'u" where
  "attempts rt body [] u = (None, u)"
| "attempts rt body ((p, shape) # rest) u =
     (case postJson rt (MODEL_BASE rt @ p) shape u of
        (Inl err, u') \<Rightarrow> (Some (Inl err), u')
      | (Inr (st, json), u') \<Rightarrow>
          (case deepFindNumber (string_number rt) (fst json) (snd json) of
             None \<Rightarrow> attempts rt body rest u'
           | Some rawNum \<Rightarrow>
               if finite_or_null (Some rawNum) then
                 (case choosePlausibleTotal (arith rt) (to_number rt) rawNum body of
                    Inl err \<Rightarrow> (Some (Inl err), u')
                  | Inr chosen \<Rightarrow>
                      (Some (Inr \<lparr>status = st, raw = json,
                                  predicted_price_raw = Some rawNum,
                                  predicted_price = Some (c_n chosen),
                                  used_rule = Some (c_rule chosen)\<rparr>), u'))
               else attempts rt body rest u'))"

definition tryAllShapes ::
  "'u runtime \<Rightarrow> json \<Rightarrow> 'u \<Rightarrow> (js_error + ProxyResult) \<times> 'u" where
  "tryAllShapes rt body u =
     (let shapes = [body, JObj [(''data'', body)], JObj [(''data'', JArr [body])]];
          paths = [''/predict'', ''/'']
      in case attempts rt body (List.product paths shapes) u of
           (Some r, u') \<Rightarrow> (r, u')
         | (None, u') \<Rightarrow>
             (case postJson rt (MODEL_BASE rt @ ''/predict'') body u' of
                (Inl err, u'') \<Rightarrow> (Inl err, u'')
              | (Inr (st, json), u'') \<Rightarrow>
                  (let rawNum = deepFindNumber (string_number rt) (fst json) (snd json) in
                   case (case rawNum of
                           None \<Rightarrow> Inr (None, None)
                         | Some r \<Rightarrow>
                             if finite_or_null (Some r)
                             then (case choosePlausibleTotal (arith rt) (to_number rt) r body of
                                     Inl err \<Rightarrow> Inl err
                                   | Inr c \<Rightarrow> Inr (Some (c_n c), Some (c_rule c)))
                             else Inr (None, None)) of
                     Inl err \<Rightarrow> (Inl err, u'')
                   | Inr (chosen_n, chosen_rule) \<Rightarrow>
                       (Inr \<lparr>status = st, raw = json,
                             predicted_price_raw = (if finite_or_null rawNum then rawNum else None),
                             predicted_price = (if finite_or_null chosen_n then chosen_n else None),
                             used_rule = chosen_rule\<rparr>, u''))))"

subsection \<open>The route \<open>POST /api/predict\<close>\<close>


datatype reply_body =
    Prediction "jsnum option" "jsnum option" "string option" document
  | Failure string

record http_reply =
  code :: nat
  payload :: reply_body


subsection \<open>Observing the requests\<close>

text \<open>
  To speak about the requests a dispatch issues, the client is wrapped so that the outside
  state also carries the list of the requests made so far, each with its outcome.
\<close>

type_synonym call = "string \<times> json \<times> outcome"

definition recording :: "'u runtime \<Rightarrow> ('u \<times> call list) runtime" where
  "recording rt =
     \<lparr>arith = arith rt, string_number = string_number rt,
      to_number = to_number rt, JSON_parse = JSON_parse rt, MODEL_BASE = MODEL_BASE rt,
      https_request = (\<lambda>ul urlString b.
         case https_request rt (fst ul) urlString b of
           (out, u') \<Rightarrow> (out, (u', snd ul @ [(urlString, b, out)])))\<rparr>"

definition request_of :: "call \<Rightarrow> string \<times> json" where
  "request_of c = (fst c, fst (snd c))"

definition failed :: "call \<Rightarrow> bool" where
  "failed c = (case snd (snd c) of Failed err \<Rightarrow> True | Responded st data \<Rightarrow> False)"

definition yields_number :: "'u runtime \<Rightarrow> call \<Rightarrow> bool" where
  "yields_number rt c =
     (case snd (snd c) of
        Failed err \<Rightarrow> False
      | Responded st data \<Rightarrow>
          finite_or_null (deepFindNumber (string_number rt) (fst (parse_response rt data)) (snd (parse_response rt data))))"

subsection \<open>Vocabulary of the statements\<close>

text \<open>
  \<open>finish rt body out\<close> is what a dispatch makes of the outcome of the request it stops
  at; an outcome is \<open>quiet\<close> when it is a response in which no number is found;
  \<open>canonical_requests\<close> spells out the seven requests of a dispatch that finds no number.
\<close>

definition finish :: "'u runtime \<Rightarrow> json \<Rightarrow> outcome \<Rightarrow> js_error + ProxyResult" where
  "finish rt body out =
     (case out of
        Failed err \<Rightarrow> Inl err
      | Responded st data \<Rightarrow>
          (case deepFindNumber (string_number rt) (fst (parse_response rt data)) (snd (parse_response rt data)) of
             None \<Rightarrow>
               Inr \<lparr>status = status_or_200 st, raw = parse_response rt data,
                    predicted_price_raw = None, predicted_price = None, used_rule = None\<rparr>
           | Some rawNum \<Rightarrow>
               (case choosePlausibleTotal (arith rt) (to_number rt) rawNum body of
                  Inl err \<Rightarrow> Inl err
                | Inr chosen \<Rightarrow>
                    Inr \<lparr>status = status_or_200 st, raw = parse_response rt data,
                         predicted_price_raw = Some rawNum,
                         predicted_price = Some (c_n chosen),
                         used_rule = Some (c_rule chosen)\<rparr>)))"

definition quiet :: "'u runtime \<Rightarrow> outcome \<Rightarrow> bool" where
  "quiet rt out =
     (case out of
        Failed err \<Rightarrow> False
      | Responded st data \<Rightarrow>
          deepFindNumber (string_number rt) (fst (parse_response rt data)) (snd (parse_response rt data)) = None)"

definition canonical_requests :: "'u runtime \<Rightarrow> json \<Rightarrow> (string \<times> json) list" where
  "canonical_requests rt body =
     [(MODEL_BASE rt @ ''/predict'', or_empty body),
      (MODEL_BASE rt @ ''/predict'', JObj [(''data'', body)]),
      (MODEL_BASE rt @ ''/predict'', JObj [(''data'', JArr [body])]),
      (MODEL_BASE rt @ ''/'', or_empty body),
      (MODEL_BASE rt @ ''/'', JObj [(''data'', body)]),
      (MODEL_BASE rt @ ''/'', JObj [(''data'', JArr [body])]),
      (MODEL_BASE rt @ ''/predict'', or_empty body)]"

subsection \<open>Three model services\<close>

text \<open>
  Runtimes for concrete runs. The state of the outside world counts the requests made.
  \<open>stub_fourth\<close> answers the fourth request with a document holding a price and every
  other request with a page that is not JSON; \<open>stub_refused\<close> refuses the second
  connection; \<open>stub_silent\<close> never sends a number.
\<close>

definition features_1200 :: json where
  "features_1200 = JObj [(''procedure_area'', JNum (Fin 1200))]"

definition price_doc :: document where
  "price_doc = ([Obj [(''price'', VNum (Fin 800))]], VRef 0)"

definition stub_fourth :: "nat runtime" where
  "stub_fourth =
     \<lparr>arith = exact_arith, string_number = exact_number,
      to_number = (\<lambda>v. Inr NaN),
      JSON_parse = (\<lambda>s. if s = ''hit'' then Some price_doc else None),
      MODEL_BASE = ''https://model'',
      https_request = (\<lambda>n urlString b.
         (if n = 3 then Responded 200 ''hit'' else Responded 404 ''no model here'', Suc n))\<rparr>"

definition stub_refused :: "nat runtime" where
  "stub_refused =
     \<lparr>arith = exact_arith, string_number = exact_number,
      to_number = (\<lambda>v. Inr NaN),
      JSON_parse = (\<lambda>s. None),
      MODEL_BASE = ''https://model'',
      https_request = (\<lambda>n urlString b.
         (if n = 1 then Failed (TransportError ''connect ECONNREFUSED'')
          else Responded 404 ''no model here'', Suc n))\<rparr>"

definition stub_silent :: "nat runtime" where
  "stub_silent =
     \<lparr>arith = exact_arith, string_number = exact_number,
      to_number = (\<lambda>v. Inr NaN),
      JSON_parse = (\<lambda>s. None),
      MODEL_BASE = ''https://model'',
      https_request = (\<lambda>n urlString b. (Responded 404 ''no model here'', Suc n))\<rparr>"

definition miss_doc :: document where
  "miss_doc = ([Obj [(''raw'', VStr ''no model here'')]], VRef 0)"

section \<open>Properties of the resolver\<close>

subsection \<open>Numbers and sorting\<close>

lemma DBL_OVERFLOW_pos: "0 < DBL_OVERFLOW"
  by (simp add: DBL_OVERFLOW_def)

lemma js_positive_exact_result: "js_positive (exact_result d) = (0 < d)"
  using DBL_OVERFLOW_pos by (auto simp: exact_result_def)

lemma isFinite_iff: "isFinite v = (\<exists>x. v = Fin x)"
  by (cases v) auto

lemma DBL_OVERFLOW_le: "DBL_OVERFLOW \<le> 2 ^ 1024"
  by (simp add: DBL_OVERFLOW_def)

lemma exact_result_overflow: "DBL_OVERFLOW \<le> x \<Longrightarrow> exact_result x = PosInf"
  by (simp add: exact_result_def)

lemma exact_result_small: "\<bar>x\<bar> \<le> 2 ^ 64 \<Longrightarrow> exact_result x = Fin x"
  by (auto simp: exact_result_def DBL_OVERFLOW_def)

lemma exp_1_ge: "5 / 2 \<le> exp (1::real)"
  using exp_lower_Taylor_quadratic [of "1::real"] by simp

lemma exp_nat_ge: "(5 / 2) ^ k \<le> exp (real k)"
proof -
  have "exp (real k) = exp (1::real) ^ k"
    using exp_of_nat_mult [of k "1::real"] by simp
  then show ?thesis using exp_1_ge by (simp add: power_mono)
qed

lemma exp_nat_le: "exp (real k) \<le> 3 ^ k"
proof -
  have "exp (real k) = exp (1::real) ^ k"
    using exp_of_nat_mult [of k "1::real"] by simp
  then show ?thesis using exp_le by (simp add: power_mono)
qed

lemma overflow_power:
  assumes "(2::real) ^ 32 \<le> b ^ 25"
  shows "DBL_OVERFLOW \<le> b ^ 800"
proof -
  have e1: "(1024::nat) = 32 * 32" and e2: "(800::nat) = 25 * 32" by simp_all
  have "((2::real) ^ 32) ^ 32 \<le> (b ^ 25) ^ 32"
    using assms by (intro power_mono) simp_all
  then have "(2::real) ^ 1024 \<le> b ^ 800"
    unfolding e1 e2 power_mult .
  with DBL_OVERFLOW_le show ?thesis by (rule order_trans)
qed

lemma exact_exp_overflow:
  assumes "800 \<le> x"
  shows "exact_exp (Fin x) = PosInf"
proof -
  have a: "DBL_OVERFLOW \<le> (5 / 2 :: real) ^ 800"
    by (rule overflow_power) (simp add: power_divide)
  have b: "(5 / 2 :: real) ^ 800 \<le> exp (real 800)" by (rule exp_nat_ge)
  have c: "real 800 = 800" by simp
  have "exp (800::real) \<le> exp x" using assms by (simp only: exp_le_cancel_iff)
  with order_trans [OF a b] have "DBL_OVERFLOW \<le> exp x"
    unfolding c by (rule order_trans)
  then show ?thesis unfolding exact_exp.simps by (rule exact_result_overflow)
qed

lemma exact_pow10_overflow:
  assumes "800 \<le> x"
  shows "exact_pow10 (Fin x) = PosInf"
proof -
  have a: "DBL_OVERFLOW \<le> (10::real) ^ 800"
    by (rule overflow_power) simp
  have b: "(10::real) powr real 800 = 10 ^ 800"
    by (rule powr_realpow) simp
  have c: "real 800 = 800" by simp
  have d: "(10::real) powr 800 \<le> 10 powr x"
    using assms by (intro powr_mono) simp_all
  have "DBL_OVERFLOW \<le> (10::real) powr 800"
    using a unfolding b [symmetric] c .
  then have "DBL_OVERFLOW \<le> (10::real) powr x"
    using d by (rule order_trans)
  then show ?thesis unfolding exact_pow10.simps by (rule exact_result_overflow)
qed

lemma push_foldl:
  "foldl push cs vs =
     cs @ map (\<lambda>vr. \<lparr>c_n = fst vr, c_rule = snd vr\<rparr>) (filter (\<lambda>vr. isFinite (fst vr)) vs)"
  by (induction vs arbitrary: cs) (auto simp: push_def)

lemma set_insert_sorted: "set (insert_sorted cmp x ys) = insert x (set ys)"
  by (induction ys) auto

lemma set_js_sort: "set (js_sort cmp xs) = set xs"
  by (induction xs) (auto simp: js_sort_def set_insert_sorted)

lemma js_sort_Cons: "js_sort cmp (x # xs) = insert_sorted cmp x (js_sort cmp xs)"
  by (simp add: js_sort_def)

lemma js_sort_Nil_iff: "js_sort cmp xs = [] \<longleftrightarrow> xs = []"
  using set_js_sort [of cmp xs] by (metis set_empty)

lemma consistent_on_subset: "consistent_on cmp S \<Longrightarrow> T \<subseteq> S \<Longrightarrow> consistent_on cmp T"
  unfolding consistent_on_def by blast

lemma consistent_on_total:
  "consistent_on cmp S \<Longrightarrow> a \<in> S \<Longrightarrow> b \<in> S \<Longrightarrow> js_positive (cmp a b) \<Longrightarrow> \<not> js_positive (cmp b a)"
  unfolding consistent_on_def by blast

lemma consistent_on_trans:
  "consistent_on cmp S \<Longrightarrow> a \<in> S \<Longrightarrow> b \<in> S \<Longrightarrow> c \<in> S \<Longrightarrow>
     \<not> js_positive (cmp a b) \<Longrightarrow> \<not> js_positive (cmp b c) \<Longrightarrow> \<not> js_positive (cmp a c)"
  unfolding consistent_on_def by blast

lemma hd_insert_sorted:
  assumes least: "\<forall>z \<in> set ys. \<not> js_positive (cmp (hd ys) z)"
    and cons: "consistent_on cmp (insert x (set ys))"
  shows "\<forall>z \<in> insert x (set ys). \<not> js_positive (cmp (hd (insert_sorted cmp x ys)) z)"
proof (cases ys)
  case Nil
  then show ?thesis using consistent_on_total [OF cons, of x x] by auto
next
  case (Cons y ys')
  show ?thesis
  proof (cases "js_positive (cmp x y)")
    case True
    then have "\<not> js_positive (cmp y x)"
      using consistent_on_total [OF cons, of x y] Cons by simp
    then show ?thesis using True Cons least by simp
  next
    case False
    have "\<not> js_positive (cmp x x)"
      using consistent_on_total [OF cons, of x x] by auto
    moreover have "\<not> js_positive (cmp x z)" if "z \<in> set ys" for z
    proof -
      have "\<not> js_positive (cmp y z)" using least that Cons by auto
      then show ?thesis
        using consistent_on_trans [OF cons, of x y z] False that Cons by simp
    qed
    ultimately show ?thesis using False Cons by simp
  qed
qed

lemma hd_js_sort:
  "xs \<noteq> [] \<Longrightarrow> consistent_on cmp (set xs) \<Longrightarrow>
     hd (js_sort cmp xs) \<in> set xs \<and>
     (\<forall>z \<in> set xs. \<not> js_positive (cmp (hd (js_sort cmp xs)) z))"
proof (induction xs)
  case Nil
  then show ?case by simp
next
  case (Cons x xs)
  let ?ys = "js_sort cmp xs"
  have sub: "insert x (set ?ys) = set (x # xs)"
    by (simp add: set_js_sort)
  have least: "\<forall>z \<in> set ?ys. \<not> js_positive (cmp (hd ?ys) z)"
  proof (cases "xs = []")
    case True
    then show ?thesis by (simp add: js_sort_def)
  next
    case False
    have "consistent_on cmp (set xs)"
      by (rule consistent_on_subset [OF Cons.prems(2)]) auto
    from Cons.IH [OF False this] show ?thesis by (simp add: set_js_sort)
  qed
  have "consistent_on cmp (insert x (set ?ys))"
    using Cons.prems(2) unfolding sub .
  from hd_insert_sorted [OF least this]
  have "\<forall>z \<in> insert x (set ?ys). \<not> js_positive (cmp (hd (insert_sorted cmp x ?ys)) z)" .
  moreover have "hd (insert_sorted cmp x ?ys) \<in> set (insert_sorted cmp x ?ys)"
    by (rule hd_in_set) (cases ?ys; simp)
  ultimately show ?case
    unfolding js_sort_Cons set_insert_sorted sub by blast
qed

lemma bonus_cases: "bonus c = 0 \<or> bonus c = 1"
  by (simp add: bonus_def)

lemma plausible_cmp_positive:
  assumes "c_n a = Fin x" "c_n b = Fin y"
  shows "js_positive (plausible_cmp a b) = (bonus a < bonus b \<or> (bonus a = bonus b \<and> x < y))"
  using assms bonus_cases [of a] bonus_cases [of b]
  by (auto simp: plausible_cmp_def Let_def js_positive_exact_result)

lemma largest_cmp_positive:
  assumes "c_n a = Fin x" "c_n b = Fin y"
  shows "js_positive (largest_cmp a b) = (x < y)"
  using assms by (simp add: largest_cmp_def js_positive_exact_result)

lemma consistent_plausible_cmp:
  assumes "\<forall>c \<in> S. isFinite (c_n c)"
  shows "consistent_on plausible_cmp S"
  unfolding consistent_on_def
proof (intro conjI ballI impI)
  fix a b assume "a \<in> S" "b \<in> S" "js_positive (plausible_cmp a b)"
  moreover from this assms obtain x y where "c_n a = Fin x" "c_n b = Fin y"
    by (meson isFinite_iff)
  ultimately show "\<not> js_positive (plausible_cmp b a)"
    by (simp add: plausible_cmp_positive [of a x b y] plausible_cmp_positive [of b y a x]) linarith
next
  fix a b c assume "a \<in> S" "b \<in> S" "c \<in> S"
    and h: "\<not> js_positive (plausible_cmp a b) \<and> \<not> js_positive (plausible_cmp b c)"
  with assms obtain x y z where "c_n a = Fin x" "c_n b = Fin y" "c_n c = Fin z"
    by (meson isFinite_iff)
  with h show "\<not> js_positive (plausible_cmp a c)"
    by (simp add: plausible_cmp_positive [of a x b y] plausible_cmp_positive [of b y c z]
        plausible_cmp_positive [of a x c z]) linarith
qed

lemma consistent_largest_cmp:
  assumes "\<forall>c \<in> S. isFinite (c_n c)"
  shows "consistent_on largest_cmp S"
  unfolding consistent_on_def
proof (intro conjI ballI impI)
  fix a b assume "a \<in> S" "b \<in> S" "js_positive (largest_cmp a b)"
  moreover from this assms obtain x y where "c_n a = Fin x" "c_n b = Fin y"
    by (meson isFinite_iff)
  ultimately show "\<not> js_positive (largest_cmp b a)"
    by (simp add: largest_cmp_positive [of a x b y] largest_cmp_positive [of b y a x])
next
  fix a b c assume "a \<in> S" "b \<in> S" "c \<in> S"
    and h: "\<not> js_positive (largest_cmp a b) \<and> \<not> js_positive (largest_cmp b c)"
  with assms obtain x y z where "c_n a = Fin x" "c_n b = Fin y" "c_n c = Fin z"
    by (meson isFinite_iff)
  with h show "\<not> js_positive (largest_cmp a c)"
    by (simp add: largest_cmp_positive [of a x b y] largest_cmp_positive [of b y c z]
        largest_cmp_positive [of a x c z])
qed

subsection \<open>Selection\<close>

lemma candidates_eq:
  "foldl push [] G = map mk (filter (\<lambda>vr. isFinite (fst vr)) G)"
  by (simp add: push_foldl mk_def)

lemma candidates_finite: "\<forall>c \<in> set (foldl push [] G). isFinite (c_n c)"
  by (auto simp: candidates_eq mk_def)

lemma candidates_nonempty: "foldl push [] (generated ar (Fin x) area) \<noteq> []"
  unfolding candidates_eq by (simp add: generated_def exact_arith_def)

lemma in_range_finite: "in_range v \<Longrightarrow> isFinite v"
  by (cases v) (auto simp: in_range_def PL_MIN_def PL_MAX_def)

lemma plausible_eq:
  "plausible_of (foldl push [] G) = map mk (filter (\<lambda>vr. in_range (fst vr)) G)"
proof -
  have "filter (\<lambda>c. in_range (c_n c)) (map mk (filter (\<lambda>vr. isFinite (fst vr)) G))
        = map mk (filter (\<lambda>vr. in_range (fst vr)) G)"
    by (induction G) (auto simp: mk_def dest: in_range_finite)
  then show ?thesis
    by (simp add: plausible_of_def candidates_eq in_range_def)
qed

lemma select_plausible:
  assumes fin: "\<forall>c \<in> set cands. isFinite (c_n c)" and ne: "plausible_of cands \<noteq> []"
  shows "select rawNumber cands \<in> set (plausible_of cands) \<and>
         (\<forall>d \<in> set (plausible_of cands). \<not> js_positive (plausible_cmp (select rawNumber cands) d))"
proof -
  have "\<forall>c \<in> set (plausible_of cands). isFinite (c_n c)"
    using fin by (simp add: plausible_of_def)
  then have "consistent_on plausible_cmp (set (plausible_of cands))"
    by (rule consistent_plausible_cmp)
  from hd_js_sort [OF ne this] show ?thesis
    using ne by (simp add: select_def)
qed

lemma select_fallback:
  assumes fin: "\<forall>c \<in> set cands. isFinite (c_n c)" and em: "plausible_of cands = []"
    and ne: "cands \<noteq> []"
  shows "select rawNumber cands \<in> set cands \<and>
         (\<forall>d \<in> set cands. \<not> js_positive (largest_cmp (select rawNumber cands) d))"
proof -
  have cons: "consistent_on largest_cmp (set cands)"
    using fin by (rule consistent_largest_cmp)
  obtain c rest where s: "js_sort largest_cmp cands = c # rest"
    using ne js_sort_Nil_iff [of largest_cmp cands] by (cases "js_sort largest_cmp cands") auto
  then have "select rawNumber cands = hd (js_sort largest_cmp cands)"
    using em by (simp add: select_def)
  with hd_js_sort [OF ne cons] show ?thesis by simp
qed

lemma select_finite:
  assumes fin: "\<forall>c \<in> set cands. isFinite (c_n c)" and ne: "cands \<noteq> []"
  shows "isFinite (c_n (select rawNumber cands))"
proof (cases "plausible_of cands = []")
  case True
  from select_fallback [OF fin True ne] fin show ?thesis by blast
next
  case False
  from select_plausible [OF fin False] have "select rawNumber cands \<in> set cands"
    by (auto simp: plausible_of_def)
  with fin show ?thesis by blast
qed

lemma choose_finite:
  assumes "choosePlausibleTotal ar conv (Fin x) features = Inr c"
  shows "isFinite (c_n c)"
proof -
  from assms obtain area where "c = select (Fin x) (foldl push [] (generated ar (Fin x) area))"
    by (auto simp: choosePlausibleTotal_def split: sum.splits)
  then show ?thesis
    using select_finite [OF candidates_finite candidates_nonempty] by simp
qed

lemma not_positive_plausible:
  assumes "c_n c = Fin x" "c_n d = Fin y" "\<not> js_positive (plausible_cmp c d)"
  shows "(per_sqm (c_rule d) \<longrightarrow> per_sqm (c_rule c)) \<and>
         (per_sqm (c_rule d) = per_sqm (c_rule c) \<longrightarrow> y \<le> x)"
  using assms(3) unfolding plausible_cmp_positive [OF assms(1,2)]
  by (auto simp: bonus_def per_sqm_def split: if_splits)


lemma not_positive_largest:
  assumes "c_n c = Fin x" "c_n d = Fin y" "\<not> js_positive (largest_cmp c d)"
  shows "js_le (c_n d) (c_n c)"
  using assms(3) unfolding largest_cmp_positive [OF assms(1,2)]
  by (simp add: assms(1,2))

lemma choose_Inr:
  assumes "read_area conv features = Inr area"
  shows "choosePlausibleTotal ar conv rawNumber features =
           Inr (select rawNumber (foldl push [] (generated ar rawNumber area)))"
  using assms by (simp add: choosePlausibleTotal_def)

lemma mem_candidates:
  "c \<in> set (foldl push [] G) \<longleftrightarrow> (c_n c, c_rule c) \<in> set G \<and> isFinite (c_n c)"
  by (cases c) (auto simp: candidates_eq mk_def image_iff)

lemma mem_plausible:
  "c \<in> set (plausible_of (foldl push [] G)) \<longleftrightarrow> (c_n c, c_rule c) \<in> set G \<and> in_range (c_n c)"
  by (cases c) (auto simp: plausible_eq mk_def image_iff)

subsection \<open>Concrete requests\<close>

lemma area_1200: "read_area conv (JObj [(''procedure_area'', JNum (Fin 1200))]) = Inr (Fin 1200)"
  by (simp add: read_area_def or_zero_def)

lemma generated_800:
  "foldl push [] (generated exact_arith (Fin 800) (Fin 1200)) =
     [\<lparr>c_n = Fin 800, c_rule = ''raw''\<rparr>, \<lparr>c_n = Fin 960000, c_rule = ''per_sqm''\<rparr>,
      \<lparr>c_n = Fin 800000, c_rule = ''x1000''\<rparr>]"
  by (simp add: generated_def exact_arith_def exact_exp_overflow exact_pow10_overflow push_def exact_result_small
      del: exact_exp.simps exact_pow10.simps)

lemma exp_12_5_bounds: "59604 \<le> exp (25 / 2 :: real)" "exp (25 / 2 :: real) \<le> 1594323"
proof -
  have a: "(59604::real) \<le> (5 / 2) ^ 12" by (simp add: power_divide)
  have b: "(5 / 2 :: real) ^ 12 \<le> exp (real 12)" by (rule exp_nat_ge)
  have c: "exp (real 12) \<le> exp (25 / 2 :: real)" by simp
  show "59604 \<le> exp (25 / 2 :: real)" using a b c by linarith
  have d: "exp (25 / 2 :: real) \<le> exp (real 13)" by simp
  have e: "exp (real 13) \<le> 3 ^ 13" by (rule exp_nat_le)
  have f: "(3::real) ^ 13 = 1594323" by simp
  show "exp (25 / 2 :: real) \<le> 1594323" using d e f by linarith
qed

lemma pow10_12_5_bounds:
  "1000000000000 \<le> (10::real) powr (25 / 2)" "(10::real) powr (25 / 2) \<le> 10000000000000"
proof -
  have "(10::real) powr real 12 \<le> 10 powr (25 / 2)" by (intro powr_mono) simp_all
  moreover have "(10::real) powr real 12 = 10 ^ 12" by (rule powr_realpow) simp
  ultimately show "1000000000000 \<le> (10::real) powr (25 / 2)" by simp
  have "(10::real) powr (25 / 2) \<le> 10 powr real 13" by (intro powr_mono) simp_all
  moreover have "(10::real) powr real 13 = 10 ^ 13" by (rule powr_realpow) simp
  ultimately show "(10::real) powr (25 / 2) \<le> 10000000000000" by simp
qed

lemma area_1000: "read_area conv (JObj [(''procedure_area'', JNum (Fin 1000))]) = Inr (Fin 1000)"
  by (simp add: read_area_def or_zero_def)

lemma generated_12_5:
  "foldl push [] (generated exact_arith (Fin (25 / 2)) (Fin 1000)) =
     [\<lparr>c_n = Fin (25 / 2), c_rule = ''raw''\<rparr>,
      \<lparr>c_n = Fin 12500, c_rule = ''per_sqm''\<rparr>,
      \<lparr>c_n = Fin (exp (25 / 2) * 1000), c_rule = ''exp_per_sqm''\<rparr>,
      \<lparr>c_n = Fin (10 powr (25 / 2) * 1000), c_rule = ''pow10_per_sqm''\<rparr>,
      \<lparr>c_n = Fin (exp (25 / 2)), c_rule = ''exp''\<rparr>,
      \<lparr>c_n = Fin (10 powr (25 / 2)), c_rule = ''pow10''\<rparr>,
      \<lparr>c_n = Fin 12500, c_rule = ''x1000''\<rparr>]"
proof -
  have e: "exact_result (exp (25 / 2 :: real)) = Fin (exp (25 / 2))"
    by (rule exact_result_small) (use exp_12_5_bounds in simp)
  have t: "exact_result ((10::real) powr (25 / 2)) = Fin (10 powr (25 / 2))"
    by (rule exact_result_small) (use pow10_12_5_bounds in simp)
  have e': "exact_result (exp (25 / 2 :: real) * 1000) = Fin (exp (25 / 2) * 1000)"
    by (rule exact_result_small) (use exp_12_5_bounds in simp)
  have t': "exact_result ((10::real) powr (25 / 2) * 1000) = Fin (10 powr (25 / 2) * 1000)"
    by (rule exact_result_small) (use pow10_12_5_bounds in simp)
  show ?thesis
    by (simp add: generated_def exact_arith_def push_def e t e' t' exact_result_small)
qed

lemma select_12_5:
  assumes "59604 \<le> E" "E \<le> 1594323" "1000000000000 \<le> T" "T \<le> 10000000000000"
  shows "select (Fin (25 / 2))
     [\<lparr>c_n = Fin (25 / 2), c_rule = ''raw''\<rparr>,
      \<lparr>c_n = Fin 12500, c_rule = ''per_sqm''\<rparr>,
      \<lparr>c_n = Fin (E * 1000), c_rule = ''exp_per_sqm''\<rparr>,
      \<lparr>c_n = Fin (T * 1000), c_rule = ''pow10_per_sqm''\<rparr>,
      \<lparr>c_n = Fin E, c_rule = ''exp''\<rparr>,
      \<lparr>c_n = Fin T, c_rule = ''pow10''\<rparr>,
      \<lparr>c_n = Fin 12500, c_rule = ''x1000''\<rparr>] = \<lparr>c_n = Fin (E * 1000), c_rule = ''exp_per_sqm''\<rparr>"
  using assms
  by (simp add: select_def plausible_of_def PL_MIN_def PL_MAX_def js_sort_def
      plausible_cmp_def bonus_def)

lemma per_sqm_in_generated_800:
  "(Fin 960000, ''per_sqm'') \<in> set (generated exact_arith (Fin 800) (Fin 1200))"
  by (simp add: generated_def exact_arith_def exact_result_small del: exact_exp.simps exact_pow10.simps)

lemma area_absent: "read_area conv (JObj []) = Inr (Fin 0)"
  by (simp add: read_area_def or_zero_def)

lemma generated_3e9:
  "generated exact_arith (Fin 3000000000) (Fin 0) =
     [(Fin 3000000000, ''raw''), (PosInf, ''exp''), (PosInf, ''pow10''),
      (Fin 3000000000000, ''x1000'')]"
  by (simp add: generated_def exact_arith_def exact_exp_overflow exact_pow10_overflow exact_result_small
      del: exact_exp.simps exact_pow10.simps)

lemma choose_800:
  "choosePlausibleTotal exact_arith conv (Fin 800) (JObj [(''procedure_area'', JNum (Fin 1200))])
     = Inr \<lparr>c_n = Fin 960000, c_rule = ''per_sqm''\<rparr>"
  by (simp add: choosePlausibleTotal_def area_1200 generated_800
      select_def plausible_of_def PL_MIN_def PL_MAX_def exact_result_small js_sort_def
      plausible_cmp_def bonus_def)

text \<open>
  Claim C6. For \<open>rawNumber = 800\<close> and the features \<open>{procedure_area: 1200}\<close> the resolver
  selects the candidate with rule \<open>per_sqm\<close> and value 960,000. (The candidates are
  \<open>raw = 800\<close>, \<open>per_sqm = 960000\<close> and \<open>x1000 = 800000\<close>; the four exponential ones overflow
  and are not kept. Two are plausible, and the rule containing \<open>per_sqm\<close> wins. At this
  input the exact arithmetic is that of doubles: the products are integers below \<open>2^53\<close>,
  and \<open>e^800\<close> and \<open>10^800\<close> overflow.)
\<close>

theorem C6_selects_per_sqm:
  "choosePlausibleTotal exact_arith conv (Fin 800) (JObj [(''procedure_area'', JNum (Fin 1200))])
     = Inr \<lparr>c_n = Fin 960000, c_rule = ''per_sqm''\<rparr>"
  by (rule choose_800)

text \<open>
  Claim C5, as amended. For \<open>rawNumber = 12.5\<close> and the features \<open>{procedure_area: 1000}\<close>
  the candidates \<open>exp_per_sqm = e^12.5 * 1000\<close> (about 268,337,286) and \<open>exp = e^12.5\<close>
  (about 268,337) lie in the plausible range, so the resolver does not fall back: it
  returns the \<open>exp_per_sqm\<close> candidate, the plausible one whose rule contains \<open>per_sqm\<close>.
  The run is in the exact arithmetic; every value it compares with a bound of the range
  is away from that bound by far more than a rounding, so the tests come out the same in
  doubles and only the last digits of the value returned differ.
\<close>

theorem C5_amended:
  "choosePlausibleTotal exact_arith conv (Fin (25 / 2)) (JObj [(''procedure_area'', JNum (Fin 1000))])
     = Inr \<lparr>c_n = Fin (exp (25 / 2) * 1000), c_rule = ''exp_per_sqm''\<rparr> \<and>
   in_range (Fin (exp (25 / 2) * 1000)) \<and> in_range (Fin (exp (25 / 2)))"
proof -
  have "choosePlausibleTotal exact_arith conv (Fin (25 / 2)) (JObj [(''procedure_area'', JNum (Fin 1000))])
     = Inr \<lparr>c_n = Fin (exp (25 / 2) * 1000), c_rule = ''exp_per_sqm''\<rparr>"
    using select_12_5 [OF exp_12_5_bounds pow10_12_5_bounds]
    by (simp add: choosePlausibleTotal_def area_1000 generated_12_5)
  moreover have "in_range (Fin (exp (25 / 2) * 1000))" "in_range (Fin (exp (25 / 2)))"
    using exp_12_5_bounds by (simp_all add: in_range_def PL_MIN_def PL_MAX_def)
  ultimately show ?thesis by blast
qed

text \<open>
  The claim as stated fails: at this input the plausible list is not empty, and the
  candidate returned is not the largest one (\<open>pow10_per_sqm\<close> is a larger candidate).
\<close>

theorem C5_counterexample:
  "plausible_of (foldl push [] (generated exact_arith (Fin (25 / 2)) (Fin 1000))) \<noteq> [] \<and>
   choosePlausibleTotal exact_arith (\<lambda>v. Inr NaN) (Fin (25 / 2)) (JObj [(''procedure_area'', JNum (Fin 1000))])
     = Inr \<lparr>c_n = Fin (exp (25 / 2) * 1000), c_rule = ''exp_per_sqm''\<rparr> \<and>
   \<lparr>c_n = Fin (10 powr (25 / 2) * 1000), c_rule = ''pow10_per_sqm''\<rparr>
     \<in> set (foldl push [] (generated exact_arith (Fin (25 / 2)) (Fin 1000))) \<and>
   js_lt (Fin (exp (25 / 2) * 1000)) (Fin (10 powr (25 / 2) * 1000))"
proof -
  have "plausible_of (foldl push [] (generated exact_arith (Fin (25 / 2)) (Fin 1000))) \<noteq> []"
    using exp_12_5_bounds unfolding generated_12_5
    by (simp add: plausible_of_def PL_MIN_def PL_MAX_def)
  moreover have "choosePlausibleTotal exact_arith (\<lambda>v. Inr NaN) (Fin (25 / 2))
        (JObj [(''procedure_area'', JNum (Fin 1000))])
      = Inr \<lparr>c_n = Fin (exp (25 / 2) * 1000), c_rule = ''exp_per_sqm''\<rparr>"
    using select_12_5 [OF exp_12_5_bounds pow10_12_5_bounds]
    by (simp add: choosePlausibleTotal_def area_1000 generated_12_5)
  moreover have "\<lparr>c_n = Fin (10 powr (25 / 2) * 1000), c_rule = ''pow10_per_sqm''\<rparr>
     \<in> set (foldl push [] (generated exact_arith (Fin (25 / 2)) (Fin 1000)))"
    unfolding generated_12_5 by simp
  moreover have "js_lt (Fin (exp (25 / 2) * 1000)) (Fin (10 powr (25 / 2) * 1000))"
    using exp_12_5_bounds pow10_12_5_bounds by simp
  ultimately show ?thesis by blast
qed

subsection \<open>Every request\<close>

text \<open>
  Claim C1, as amended. Whatever the arithmetic \<open>ar\<close> of the engine computes, for every
  finite \<open>rawNumber\<close> and every \<open>features\<close> whose area is read without an exception, the
  resolver returns a candidate, and: the plausible list is exactly the generated candidates
  with a value in \<open>[50000, 2000000000]\<close>; if there is one, the result is one of them, its
  rule contains \<open>per_sqm\<close> whenever that of some plausible candidate does, and its value is
  largest among the plausible candidates that agree with it on \<open>per_sqm\<close>; if there is
  none, the result is the largest among the generated candidates whose value is finite.
  The generated values are those of \<open>ar\<close>, so the statement speaks of the products,
  exponentials and powers as the engine rounds them.
\<close>

theorem C1_amended:
  assumes area: "read_area conv features = Inr area"
  shows "\<exists>c. choosePlausibleTotal ar conv (Fin x) features = Inr c \<and>
     plausible_of (foldl push [] (generated ar (Fin x) area))
       = map mk (filter (\<lambda>vr. in_range (fst vr)) (generated ar (Fin x) area)) \<and>
     ((\<exists>vr \<in> set (generated ar (Fin x) area). in_range (fst vr)) \<longrightarrow>
        (c_n c, c_rule c) \<in> set (generated ar (Fin x) area) \<and> in_range (c_n c) \<and>
        (\<forall>vr \<in> set (generated ar (Fin x) area). in_range (fst vr) \<longrightarrow>
           (per_sqm (snd vr) \<longrightarrow> per_sqm (c_rule c)) \<and>
           (per_sqm (snd vr) = per_sqm (c_rule c) \<longrightarrow> js_le (fst vr) (c_n c)))) \<and>
     (\<not> (\<exists>vr \<in> set (generated ar (Fin x) area). in_range (fst vr)) \<longrightarrow>
        (c_n c, c_rule c) \<in> set (generated ar (Fin x) area) \<and> isFinite (c_n c) \<and>
        (\<forall>vr \<in> set (generated ar (Fin x) area). isFinite (fst vr) \<longrightarrow> js_le (fst vr) (c_n c)))"
proof -
  let ?G = "generated ar (Fin x) area"
  let ?cands = "foldl push [] ?G"
  let ?c = "select (Fin x) ?cands"
  have fin: "\<forall>c \<in> set ?cands. isFinite (c_n c)" by (rule candidates_finite)
  have ne: "?cands \<noteq> []" by (rule candidates_nonempty)
  have pl: "plausible_of ?cands \<noteq> [] \<longleftrightarrow> (\<exists>vr \<in> set ?G. in_range (fst vr))"
    by (auto simp: plausible_eq filter_empty_conv)
  have A: "(c_n ?c, c_rule ?c) \<in> set ?G \<and> in_range (c_n ?c) \<and>
        (\<forall>vr \<in> set ?G. in_range (fst vr) \<longrightarrow>
           (per_sqm (snd vr) \<longrightarrow> per_sqm (c_rule ?c)) \<and>
           (per_sqm (snd vr) = per_sqm (c_rule ?c) \<longrightarrow> js_le (fst vr) (c_n ?c)))"
    if "\<exists>vr \<in> set ?G. in_range (fst vr)"
  proof -
    from that pl have "plausible_of ?cands \<noteq> []" by simp
    from select_plausible [OF fin this, of "Fin x"]
    have mem: "?c \<in> set (plausible_of ?cands)"
      and best: "\<forall>d \<in> set (plausible_of ?cands). \<not> js_positive (plausible_cmp ?c d)"
      by simp_all
    from mem have m: "(c_n ?c, c_rule ?c) \<in> set ?G" "in_range (c_n ?c)"
      by (simp_all add: mem_plausible)
    then obtain a where a: "c_n ?c = Fin a"
      using in_range_finite isFinite_iff by blast
    have "(per_sqm (snd vr) \<longrightarrow> per_sqm (c_rule ?c)) \<and>
          (per_sqm (snd vr) = per_sqm (c_rule ?c) \<longrightarrow> js_le (fst vr) (c_n ?c))"
      if vr: "vr \<in> set ?G" "in_range (fst vr)" for vr
    proof -
      have d: "mk vr \<in> set (plausible_of ?cands)"
        using vr by (simp add: mem_plausible mk_def)
      obtain b where b: "fst vr = Fin b"
        using vr(2) in_range_finite isFinite_iff by blast
      have "\<not> js_positive (plausible_cmp ?c (mk vr))" using best d by blast
      from not_positive_plausible [OF a _ this, of b] b
      show ?thesis by (simp add: mk_def a)
    qed
    with m show ?thesis by blast
  qed
  have B: "(c_n ?c, c_rule ?c) \<in> set ?G \<and> isFinite (c_n ?c) \<and>
        (\<forall>vr \<in> set ?G. isFinite (fst vr) \<longrightarrow> js_le (fst vr) (c_n ?c))"
    if "\<not> (\<exists>vr \<in> set ?G. in_range (fst vr))"
  proof -
    from that pl have "plausible_of ?cands = []" by blast
    from select_fallback [OF fin this ne, of "Fin x"]
    have mem: "?c \<in> set ?cands"
      and best: "\<forall>d \<in> set ?cands. \<not> js_positive (largest_cmp ?c d)"
      by simp_all
    from mem have m: "(c_n ?c, c_rule ?c) \<in> set ?G" "isFinite (c_n ?c)"
      by (simp_all add: mem_candidates)
    then obtain a where a: "c_n ?c = Fin a"
      using isFinite_iff by blast
    have "js_le (fst vr) (c_n ?c)" if vr: "vr \<in> set ?G" "isFinite (fst vr)" for vr
    proof -
      have d: "mk vr \<in> set ?cands"
        using vr by (simp add: mem_candidates mk_def)
      obtain b where b: "fst vr = Fin b"
        using vr(2) isFinite_iff by blast
      have "\<not> js_positive (largest_cmp ?c (mk vr))" using best d by blast
      from not_positive_largest [OF a _ this, of b] b
      show ?thesis by (simp add: mk_def)
    qed
    with m show ?thesis by blast
  qed
  show ?thesis
    unfolding choose_Inr [OF area] using A B plausible_eq [of ?G] by blast
qed

theorem C1_amended_witness:
  "read_area (\<lambda>v. Inr NaN) (JObj [(''procedure_area'', JNum (Fin 1200))]) = Inr (Fin 1200) \<and>
   (\<exists>c. choosePlausibleTotal exact_arith (\<lambda>v. Inr NaN) (Fin 800)
           (JObj [(''procedure_area'', JNum (Fin 1200))]) = Inr c \<and>
        in_range (c_n c) \<and> per_sqm (c_rule c))"
proof -
  have h: "read_area (\<lambda>v. Inr NaN) (JObj [(''procedure_area'', JNum (Fin 1200))]) = Inr (Fin 1200)"
    by (rule area_1200)
  have r: "in_range (fst (Fin 960000, ''per_sqm''))" "per_sqm (snd (Fin 960000, ''per_sqm''))"
    by (simp_all add: in_range_def per_sqm_def PL_MIN_def PL_MAX_def)
  from C1_amended [OF h, where x = 800 and ar = exact_arith] per_sqm_in_generated_800 r h show ?thesis
    by blast
qed

text \<open>
  The claim as stated fails in two ways. With the largest of all generated candidates as
  the fallback, it fails when a generated value overflows: for \<open>rawNumber = 3000000000\<close>
  and no area nothing is plausible, \<open>exp\<close> is generated with the value \<open>Infinity\<close>, and the
  result is \<open>x1000\<close> (at this input the exact results are those of doubles: the product
  is an integer below \<open>2^53\<close>, the exponential and the power overflow). And not every
  \<open>features\<close> gives a candidate: for \<open>features = null\<close> reading \<open>procedure_area\<close> throws a
  \<open>TypeError\<close>.
\<close>

theorem C1_counterexample:
  "choosePlausibleTotal exact_arith (\<lambda>v. Inr NaN) (Fin 3000000000) (JObj [])
     = Inr \<lparr>c_n = Fin 3000000000000, c_rule = ''x1000''\<rparr> \<and>
   filter (\<lambda>vr. in_range (fst vr)) (generated exact_arith (Fin 3000000000) (Fin 0)) = [] \<and>
   (PosInf, ''exp'') \<in> set (generated exact_arith (Fin 3000000000) (Fin 0)) \<and>
   \<not> js_le PosInf (Fin 3000000000000) \<and>
   choosePlausibleTotal exact_arith (\<lambda>v. Inr NaN) (Fin 800) JNull
     = Inl (TypeError (''Cannot read properties of null (reading ''
                        @ [CHR 0x27] @ ''procedure_area'' @ [CHR 0x27] @ '')''))"
proof -
  have "choosePlausibleTotal exact_arith (\<lambda>v. Inr NaN) (Fin 3000000000) (JObj [])
          = Inr \<lparr>c_n = Fin 3000000000000, c_rule = ''x1000''\<rparr> \<and>
        filter (\<lambda>vr. in_range (fst vr)) (generated exact_arith (Fin 3000000000) (Fin 0)) = [] \<and>
        (PosInf, ''exp'') \<in> set (generated exact_arith (Fin 3000000000) (Fin 0)) \<and>
        \<not> js_le PosInf (Fin 3000000000000)"
    by (simp add: choosePlausibleTotal_def area_absent generated_3e9 push_def select_def
        plausible_of_def in_range_def PL_MIN_def PL_MAX_def js_sort_def largest_cmp_def
        exact_result_small)
  moreover have "choosePlausibleTotal exact_arith (\<lambda>v. Inr NaN) (Fin 800) JNull
     = Inl (TypeError (''Cannot read properties of null (reading ''
                        @ [CHR 0x27] @ ''procedure_area'' @ [CHR 0x27] @ '')''))"
    by (simp add: choosePlausibleTotal_def read_area_def)
  ultimately show ?thesis by blast
qed

text \<open>
  Claim C9. Whatever the arithmetic \<open>ar\<close> of the engine computes, for every finite
  \<open>rawNumber\<close> the filter and the fallback both work on the generated candidates with a
  finite value only (the others are never pushed); the value returned is finite, the
  candidate returned is a generated one, and when nothing is plausible it is the largest
  among the finite-valued generated candidates.
\<close>

theorem C9_finite_only:
  assumes area: "read_area conv features = Inr area"
  shows "\<exists>c. choosePlausibleTotal ar conv (Fin x) features = Inr c \<and>
     c = select (Fin x) (map mk (filter (\<lambda>vr. isFinite (fst vr)) (generated ar (Fin x) area))) \<and>
     isFinite (c_n c) \<and>
     (c_n c, c_rule c) \<in> set (generated ar (Fin x) area) \<and>
     (plausible_of (map mk (filter (\<lambda>vr. isFinite (fst vr)) (generated ar (Fin x) area))) = [] \<longrightarrow>
        (\<forall>vr \<in> set (generated ar (Fin x) area). isFinite (fst vr) \<longrightarrow> js_le (fst vr) (c_n c)))"
proof -
  let ?G = "generated ar (Fin x) area"
  let ?cands = "foldl push [] ?G"
  let ?c = "select (Fin x) ?cands"
  have fin: "\<forall>c \<in> set ?cands. isFinite (c_n c)" by (rule candidates_finite)
  have ne: "?cands \<noteq> []" by (rule candidates_nonempty)
  have f: "isFinite (c_n ?c)" by (rule select_finite [OF fin ne])
  then obtain a where a: "c_n ?c = Fin a" using isFinite_iff by blast
  have "?c \<in> set ?cands"
  proof (cases "plausible_of ?cands = []")
    case True
    from select_fallback [OF fin True ne] show ?thesis by blast
  next
    case False
    from select_plausible [OF fin False] show ?thesis by (auto simp: plausible_of_def)
  qed
  then have g: "(c_n ?c, c_rule ?c) \<in> set ?G" by (simp add: mem_candidates)
  have "js_le (fst vr) (c_n ?c)"
    if em: "plausible_of ?cands = []" and vr: "vr \<in> set ?G" "isFinite (fst vr)" for vr
  proof -
    have d: "mk vr \<in> set ?cands"
      using vr by (simp add: mem_candidates mk_def)
    obtain b where b: "fst vr = Fin b" using vr(2) isFinite_iff by blast
    have "\<not> js_positive (largest_cmp ?c (mk vr))"
      using select_fallback [OF fin em ne, of "Fin x"] d by blast
    from not_positive_largest [OF a _ this, of b] b show ?thesis by (simp add: mk_def)
  qed
  then show ?thesis
    unfolding choose_Inr [OF area] candidates_eq [symmetric] using f g by blast
qed

theorem C9_witness:
  "read_area (\<lambda>v. Inr NaN) (JObj []) = Inr (Fin 0) \<and>
   (PosInf, ''exp'') \<in> set (generated exact_arith (Fin 3000000000) (Fin 0)) \<and>
   (\<exists>c. choosePlausibleTotal exact_arith (\<lambda>v. Inr NaN) (Fin 3000000000) (JObj []) = Inr c \<and>
        isFinite (c_n c) \<and> js_le (Fin 3000000000000) (c_n c))"
proof -
  have h: "read_area (\<lambda>v. Inr NaN) (JObj []) = Inr (Fin 0)" by (rule area_absent)
  have e: "plausible_of (map mk (filter (\<lambda>vr. isFinite (fst vr))
             (generated exact_arith (Fin 3000000000) (Fin 0)))) = []"
    by (simp add: generated_3e9 plausible_of_def mk_def PL_MIN_def PL_MAX_def)
  have m: "(Fin 3000000000000, ''x1000'') \<in> set (generated exact_arith (Fin 3000000000) (Fin 0))"
    "isFinite (fst (Fin 3000000000000, ''x1000''))"
    "(PosInf, ''exp'') \<in> set (generated exact_arith (Fin 3000000000) (Fin 0))"
    by (simp_all add: generated_3e9)
  from C9_finite_only [OF h, where x = 3000000000 and ar = exact_arith] e m h show ?thesis
    by (metis fst_conv)
qed

section \<open>Properties of the extractor\<close>

lemma scan_Cons:
  "scan tonum ((k, w) # es) stack best =
     (case numeric_of tonum w of
        Some x \<Rightarrow> if keyHit k then Inl x else scan tonum es stack (if best = None then Some x else best)
      | None \<Rightarrow> scan tonum es (refs [(k, w)] @ stack) best)"
  by (cases w) (auto simp: refs_def Let_def split: option.split)

lemma refs_Cons: "refs (kv # es) = refs [kv] @ refs es"
  by (simp add: refs_def)

lemma rev_refs_single: "rev (refs [kv]) = refs [kv]"
  by (cases "snd kv") (simp_all add: refs_def)

lemma refs_numeric: "numeric_of tonum (snd kv) = Some x \<Longrightarrow> refs [kv] = []"
  by (cases "snd kv") (simp_all add: refs_def split: if_splits)

lemma scan_Inl:
  "scan tonum es stack best = Inl v \<Longrightarrow> \<exists>kv \<in> set es. keyHit (fst kv) \<and> numeric_of tonum (snd kv) = Some v"
proof (induction es arbitrary: stack best)
  case Nil
  then show ?case by simp
next
  case (Cons kv es)
  obtain k w where kv: "kv = (k, w)" by (cases kv)
  show ?case
  proof (cases "numeric_of tonum w")
    case None
    with Cons.prems kv have "scan tonum es (refs [(k, w)] @ stack) best = Inl v"
      by (simp only: scan_Cons option.case)
    from Cons.IH [OF this] show ?thesis by auto
  next
    case (Some x)
    show ?thesis
    proof (cases "keyHit k")
      case True
      with Some Cons.prems kv have "x = v" by (simp only: scan_Cons option.case if_True sum.inject)
      with Some True kv show ?thesis by auto
    next
      case False
      with Some Cons.prems kv have "scan tonum es stack (if best = None then Some x else best) = Inl v"
        by (simp only: scan_Cons option.case if_False)
      from Cons.IH [OF this] show ?thesis by auto
    qed
  qed
qed

lemma scan_Inr:
  "scan tonum es stack best = Inr (stack', best') \<Longrightarrow>
     stack' = rev (refs es) @ stack \<and>
     (\<forall>kv \<in> set es. keyHit (fst kv) \<longrightarrow> numeric_of tonum (snd kv) = None) \<and>
     (\<forall>x. best' = Some x \<longrightarrow> best = Some x \<or> (\<exists>kv \<in> set es. numeric_of tonum (snd kv) = Some x))"
proof (induction es arbitrary: stack best)
  case Nil
  then show ?case by (simp add: refs_def)
next
  case (Cons kv es)
  obtain k w where kv: "kv = (k, w)" by (cases kv)
  show ?case
  proof (cases "numeric_of tonum w")
    case None
    with Cons.prems kv have "scan tonum es (refs [(k, w)] @ stack) best = Inr (stack', best')"
      by (simp only: scan_Cons option.case)
    from Cons.IH [OF this] None kv show ?thesis
      by (auto simp: refs_Cons [of "(k, w)" es] rev_refs_single)
  next
    case (Some x)
    have r: "refs [kv] = []" using Some kv refs_numeric [where kv = kv and x = x and tonum = tonum] by simp
    show ?thesis
    proof (cases "keyHit k")
      case True
      with Some Cons.prems kv show ?thesis by (simp only: scan_Cons option.case if_True) simp
    next
      case False
      with Some Cons.prems kv
      have "scan tonum es stack (if best = None then Some x else best) = Inr (stack', best')"
        by (simp only: scan_Cons option.case if_False)
      from Cons.IH [OF this] Some False kv r show ?thesis
        by (auto simp: refs_Cons [of "(k, w)" es] split: if_splits)
    qed
  qed
qed




lemma entries_Arr:
  "(k, v) \<in> set (entries (Arr vs)) \<longleftrightarrow> (\<exists>i < length vs. k = index_key i \<and> v = vs ! i)"
proof
  assume "(k, v) \<in> set (entries (Arr vs))"
  then obtain i where i: "i < length vs" "map index_key [0 ..< length vs] ! i = k" "vs ! i = v"
    by (auto simp: in_set_zip simp del: index_key.simps)
  from i(1,2) have "k = index_key i" by (simp del: index_key.simps)
  with i show "\<exists>i < length vs. k = index_key i \<and> v = vs ! i" by blast
next
  assume "\<exists>i < length vs. k = index_key i \<and> v = vs ! i"
  then obtain i where i: "i < length vs" "k = index_key i" "v = vs ! i" by blast
  have "\<exists>n. map index_key [0 ..< length vs] ! n = fst (k, v) \<and> vs ! n = snd (k, v) \<and>
          n < length (map index_key [0 ..< length vs]) \<and> n < length vs"
    by (rule exI [of _ i]) (simp add: i del: index_key.simps)
  then show "(k, v) \<in> set (entries (Arr vs))"
    by (simp only: entries.simps in_set_zip)
qed

lemma holds_entries:
  "holds h a k v \<longleftrightarrow> a < length h \<and> (k, v) \<in> set (entries (h ! a))"
proof (cases "h ! a")
  case (Obj kvs)
  then show ?thesis by (simp add: holds_def)
next
  case (Arr vs)
  then show ?thesis by (simp only: holds_def entries_Arr jsobj.case)
qed


lemma has_numeric_entries:
  "has_numeric tonum h a x \<longleftrightarrow>
     a < length h \<and> (\<exists>kv \<in> set (entries (h ! a)). numeric_of tonum (snd kv) = Some x)"
proof
  assume "has_numeric tonum h a x"
  then obtain k v where kv: "a < length h" "(k, v) \<in> set (entries (h ! a))"
    "numeric_of tonum v = Some x"
    unfolding has_numeric_def holds_entries by blast
  have "numeric_of tonum (snd (k, v)) = Some x" using kv by simp
  with kv(1,2) show "a < length h \<and>
     (\<exists>kv \<in> set (entries (h ! a)). numeric_of tonum (snd kv) = Some x)"
    by blast
next
  assume "a < length h \<and> (\<exists>kv \<in> set (entries (h ! a)). numeric_of tonum (snd kv) = Some x)"
  then obtain kv where kv: "a < length h" "kv \<in> set (entries (h ! a))"
    "numeric_of tonum (snd kv) = Some x" by blast
  from kv(2) have "(fst kv, snd kv) \<in> set (entries (h ! a))" by simp
  with kv show "has_numeric tonum h a x" unfolding has_numeric_def holds_entries by blast
qed




lemma loop_grows: "set visited \<subseteq> set (snd (loop tonum h stack visited best))"
proof (induction tonum h stack visited best rule: loop.induct)
  case (6 tonum h a stack visited best)
  show ?case
  proof (cases "\<not> a < length h \<or> a \<in> set visited")
    case True
    then show ?thesis using 6(1,2) by auto
  next
    case False
    then have a: "a < length h" "a \<notin> set visited" by auto
    show ?thesis
    proof (cases "scan tonum (entries (h ! a)) stack best")
      case (Inl v)
      then show ?thesis using a by auto
    next
      case (Inr sb)
      obtain stack' best' where sb: "sb = (stack', best')" by (cases sb)
      have n: "\<not> \<not> a < length h" using a by simp
      have "set (visited @ [a]) \<subseteq> set (snd (loop tonum h stack' (visited @ [a]) best'))"
        by (rule 6(3) [OF n a(2) Inr sb [symmetric]])
      then show ?thesis using a Inr sb by auto
    qed
  qed
qed simp_all

lemma loop_visits_once:
  "distinct visited \<Longrightarrow> set visited \<subseteq> {..< length h} \<Longrightarrow>
     distinct (snd (loop tonum h stack visited best)) \<and>
     set (snd (loop tonum h stack visited best)) \<subseteq> {..< length h}"
proof (induction tonum h stack visited best rule: loop.induct)
  case (6 tonum h a stack visited best)
  show ?case
  proof (cases "\<not> a < length h \<or> a \<in> set visited")
    case True
    then show ?thesis using 6(1,2,4,5) by auto
  next
    case False
    then have a: "a < length h" "a \<notin> set visited" by auto
    show ?thesis
    proof (cases "scan tonum (entries (h ! a)) stack best")
      case (Inl v)
      then show ?thesis using a 6(4,5) by auto
    next
      case (Inr sb)
      obtain stack' best' where sb: "sb = (stack', best')" by (cases sb)
      have d: "distinct (visited @ [a])" "set (visited @ [a]) \<subseteq> {..< length h}"
        using a 6(4,5) by auto
      have n: "\<not> \<not> a < length h" using a by simp
      have "distinct (snd (loop tonum h stack' (visited @ [a]) best')) \<and>
            set (snd (loop tonum h stack' (visited @ [a]) best')) \<subseteq> {..< length h}"
        by (rule 6(3) [OF n a(2) Inr sb [symmetric] d])
      then show ?thesis using a Inr sb by simp
    qed
  qed
qed simp_all

lemma loop_result:
  "fst (loop tonum h stack visited best) = Some x \<Longrightarrow>
     best = Some x \<or> (\<exists>a \<in> set (snd (loop tonum h stack visited best)). has_numeric tonum h a x)"
proof (induction tonum h stack visited best rule: loop.induct)
  case (6 tonum h a stack visited best)
  show ?case
  proof (cases "\<not> a < length h \<or> a \<in> set visited")
    case True
    then show ?thesis using 6(1,2,4) by auto
  next
    case False
    then have a: "a < length h" "a \<notin> set visited" by auto
    show ?thesis
    proof (cases "scan tonum (entries (h ! a)) stack best")
      case (Inl v)
      from scan_Inl [OF Inl] have "has_numeric tonum h a v"
        using a by (auto simp: has_numeric_entries)
      then show ?thesis using a Inl 6(4) by auto
    next
      case (Inr sb)
      obtain stack' best' where sb: "sb = (stack', best')" by (cases sb)
      let ?r = "loop tonum h stack' (visited @ [a]) best'"
      have eq: "loop tonum h (VRef a # stack) visited best = ?r"
        using a Inr sb by simp
      with 6(4) have f: "fst ?r = Some x" by simp
      have n: "\<not> \<not> a < length h" using a by simp
      have "best' = Some x \<or> (\<exists>b \<in> set (snd ?r). has_numeric tonum h b x)"
        by (rule 6(3) [OF n a(2) Inr sb [symmetric] f])
      moreover have "a \<in> set (snd ?r)"
        using loop_grows [where visited = "visited @ [a]" and h = h and stack = stack' and best = best' and tonum = tonum] by auto
      moreover have "best = Some x \<or> has_numeric tonum h a x" if "best' = Some x"
        using scan_Inr [OF Inr [unfolded sb]] that a by (auto simp: has_numeric_entries)
      ultimately show ?thesis unfolding eq by blast
    qed
  qed
qed simp_all


lemmas eval_keys = keyHit_def KEY_PATTERN_def word_def canonicalize_def
lemmas eval_strings = match_decimal_def strip_separators_def is_digit_def decimal_value_def exact_number_def
  digits_value_def digit_value_def




text \<open>
  Claim C4. On every heap, with cycles and shared references or without, the traversal
  returns (the recursion \<open>loop\<close> has been shown to terminate on all arguments, by the
  number of objects not yet visited and the height of the stack); no object is processed
  twice, so at most as many objects are processed as the heap has; and a number returned
  is a numeric value of an entry of a processed object.
\<close>

theorem C4_each_object_once:
  "\<exists>res visited. loop tonum h [obj] [] None = (res, visited) \<and> deepFindNumber tonum h obj = res \<and>
     distinct visited \<and> set visited \<subseteq> {..< length h} \<and> length visited \<le> length h \<and>
     (\<forall>x. res = Some x \<longrightarrow> (\<exists>a \<in> set visited. has_numeric tonum h a x))"
proof -
  obtain res visited where l: "loop tonum h [obj] [] None = (res, visited)"
    by (cases "loop tonum h [obj] [] None")
  have d: "distinct visited" "set visited \<subseteq> {..< length h}"
    using loop_visits_once [where visited = "[]" and h = h and stack = "[obj]" and best = None and tonum = tonum] l by simp_all
  have "card (set visited) \<le> card {..< length h}"
    by (rule card_mono) (use d in auto)
  then have len: "length visited \<le> length h"
    using d(1) by (simp add: distinct_card)
  have "\<exists>a \<in> set visited. has_numeric tonum h a x" if "res = Some x" for x
    using loop_result [where h = h and stack = "[obj]" and visited = "[]" and best = None and x = x and tonum = tonum] l that by simp
  with l d len show ?thesis by (simp add: deepFindNumber_def)
qed

theorem C4_witness:
  "loop exact_number cyclic_doc [VRef 0] [] None = (Some (Fin 42), [0, 1]) \<and>
   (\<exists>res visited. loop exact_number cyclic_doc [VRef 0] [] None = (res, visited) \<and>
      deepFindNumber exact_number cyclic_doc (VRef 0) = res \<and> distinct visited \<and> length visited \<le> 2)"
proof -
  have "loop exact_number cyclic_doc [VRef 0] [] None = (Some (Fin 42), [0, 1])"
    by (simp add: cyclic_doc_def eval_keys eval_strings exact_result_small)
  moreover have "length cyclic_doc = 2" by (simp add: cyclic_doc_def)
  ultimately show ?thesis using C4_each_object_once [of exact_number cyclic_doc "VRef 0"] by auto
qed

text \<open>
  Claim C10. When the value passed to \<open>deepFindNumber\<close> is not an object or array (it is
  \<open>null\<close>, a boolean, a number or a string), the result is \<open>null\<close>, also when that value is
  itself numeric.
\<close>

theorem C10_root_not_searched:
  "deepFindNumber tonum h VNull = None \<and> deepFindNumber tonum h (VBool b) = None \<and>
   deepFindNumber tonum h (VNum v) = None \<and> deepFindNumber tonum h (VStr s) = None"
  by (simp add: deepFindNumber_def)

section \<open>Properties of the dispatcher\<close>

lemma numeric_of_finite: "numeric_of tonum w = Some x \<Longrightarrow> isFinite x"
  by (cases w) (auto split: if_splits option.splits)

lemma deepFindNumber_finite: "deepFindNumber tonum h obj = Some x \<Longrightarrow> isFinite x"
  using loop_result [where h = h and stack = "[obj]" and visited = "[]" and best = None and x = x and tonum = tonum]
  by (auto simp: deepFindNumber_def has_numeric_entries dest: numeric_of_finite)

lemma attempts_Cons:
  "attempts rt body ((p, shape) # rest) u =
     (case https_request rt u (MODEL_BASE rt @ p) (or_empty shape) of
        (out, u') \<Rightarrow> if quiet rt out then attempts rt body rest u'
                     else (Some (finish rt body out), u'))"
proof -
  obtain out u' where r: "https_request rt u (MODEL_BASE rt @ p) (or_empty shape) = (out, u')"
    by (cases "https_request rt u (MODEL_BASE rt @ p) (or_empty shape)")
  show ?thesis
  proof (cases out)
    case (Failed err)
    with r show ?thesis by (simp add: postJson_def quiet_def finish_def)
  next
    case (Responded st data)
    show ?thesis
    proof (cases "deepFindNumber (string_number rt) (fst (parse_response rt data)) (snd (parse_response rt data))")
      case None
      with r Responded show ?thesis by (simp add: postJson_def quiet_def)
    next
      case (Some rawNum)
      then have "isFinite rawNum" by (rule deepFindNumber_finite)
      with r Responded Some show ?thesis
        by (simp add: postJson_def quiet_def finish_def split: sum.split)
    qed
  qed
qed

lemma tryAllShapes_eq:
  "tryAllShapes rt body u =
     (case attempts rt body
             [(''/predict'', body), (''/predict'', JObj [(''data'', body)]),
              (''/predict'', JObj [(''data'', JArr [body])]),
              (''/'', body), (''/'', JObj [(''data'', body)]),
              (''/'', JObj [(''data'', JArr [body])])] u of
        (Some r, u') \<Rightarrow> (r, u')
      | (None, u') \<Rightarrow>
          (case https_request rt u' (MODEL_BASE rt @ ''/predict'') (or_empty body) of
             (out, u'') \<Rightarrow> (finish rt body out, u'')))"
proof -
  let ?as = "[(''/predict'', body), (''/predict'', JObj [(''data'', body)]),
              (''/predict'', JObj [(''data'', JArr [body])]),
              (''/'', body), (''/'', JObj [(''data'', body)]),
              (''/'', JObj [(''data'', JArr [body])])]"
  have p: "List.product [''/predict'', ''/'']
             [body, JObj [(''data'', body)], JObj [(''data'', JArr [body])]] = ?as"
    by simp
  obtain r u' where a: "attempts rt body ?as u = (r, u')"
    by (cases "attempts rt body ?as u")
  show ?thesis
  proof (cases r)
    case (Some res)
    with a p show ?thesis by (simp add: tryAllShapes_def del: attempts.simps)
  next
    case None
    obtain out u'' where q: "https_request rt u' (MODEL_BASE rt @ ''/predict'') (or_empty body) = (out, u'')"
      by (cases "https_request rt u' (MODEL_BASE rt @ ''/predict'') (or_empty body)")
    have "(case postJson rt (MODEL_BASE rt @ ''/predict'') body u' of
             (Inl err, u'') \<Rightarrow> (Inl err, u'')
           | (Inr (st, json), u'') \<Rightarrow>
               (let rawNum = deepFindNumber (string_number rt) (fst json) (snd json) in
                case (case rawNum of
                        None \<Rightarrow> Inr (None, None)
                      | Some r \<Rightarrow>
                          if finite_or_null (Some r)
                          then (case choosePlausibleTotal (arith rt) (to_number rt) r body of
                                  Inl err \<Rightarrow> Inl err
                                | Inr c \<Rightarrow> Inr (Some (c_n c), Some (c_rule c)))
                          else Inr (None, None)) of
                  Inl err \<Rightarrow> (Inl err, u'')
                | Inr (chosen_n, chosen_rule) \<Rightarrow>
                    (Inr \<lparr>status = st, raw = json,
                          predicted_price_raw = (if finite_or_null rawNum then rawNum else None),
                          predicted_price = (if finite_or_null chosen_n then chosen_n else None),
                          used_rule = chosen_rule\<rparr>, u''))) = (finish rt body out, u'')"
    proof (cases out)
      case (Failed err)
      with q show ?thesis by (simp add: postJson_def finish_def)
    next
      case (Responded st data)
      show ?thesis
      proof (cases "deepFindNumber (string_number rt) (fst (parse_response rt data)) (snd (parse_response rt data))")
        case None
        with q Responded show ?thesis by (simp add: postJson_def finish_def)
      next
        case (Some rawNum)
        then have f: "isFinite rawNum" by (rule deepFindNumber_finite)
        show ?thesis
        proof (cases "choosePlausibleTotal (arith rt) (to_number rt) rawNum body")
          case (Inl err)
          with q Responded Some f show ?thesis by (simp add: postJson_def finish_def)
        next
          case (Inr c)
          from f obtain x where "rawNum = Fin x" using isFinite_iff by blast
          with Inr have "isFinite (c_n c)" using choose_finite by blast
          with q Responded Some f Inr show ?thesis by (simp add: postJson_def finish_def)
        qed
      qed
    qed
    with a p None q show ?thesis by (simp add: tryAllShapes_def del: attempts.simps)
  qed
qed

lemma recording_simps [simp]:
  "arith (recording rt) = arith rt"
  "string_number (recording rt) = string_number rt"
  "to_number (recording rt) = to_number rt"
  "JSON_parse (recording rt) = JSON_parse rt"
  "MODEL_BASE (recording rt) = MODEL_BASE rt"
  by (simp_all add: recording_def)

lemma https_request_recording:
  "https_request (recording rt) (u, lg) urlString b =
     (case https_request rt u urlString b of
        (out, u') \<Rightarrow> (out, (u', lg @ [(urlString, b, out)])))"
  by (simp add: recording_def)

lemma parse_response_recording [simp]: "parse_response (recording rt) = parse_response rt"
  by (rule ext) (simp add: parse_response_def)

lemma quiet_recording [simp]: "quiet (recording rt) = quiet rt"
  by (rule ext) (simp add: quiet_def split: outcome.split)

lemma finish_recording [simp]: "finish (recording rt) = finish rt"
  by (intro ext) (simp add: finish_def split: outcome.split option.split sum.split)

lemma take_prefix: "n \<le> length xs \<Longrightarrow> take n (xs @ ys) = take n xs"
  by simp

lemma quiet_iff:
  "quiet rt (snd (snd c)) \<longleftrightarrow> \<not> failed c \<and> \<not> yields_number rt c"
proof (cases "snd (snd c)")
  case (Failed err)
  then show ?thesis by (simp add: quiet_def failed_def)
next
  case (Responded st data)
  let ?r = "deepFindNumber (string_number rt) (fst (parse_response rt data)) (snd (parse_response rt data))"
  have "finite_or_null ?r \<longleftrightarrow> ?r \<noteq> None"
    by (cases ?r) (auto dest: deepFindNumber_finite)
  with Responded show ?thesis by (simp add: quiet_def failed_def yields_number_def)
qed

lemma attempts_recording:
  "attempts (recording rt) body as (u, lg0) = (r, (u', lg)) \<Longrightarrow>
     \<exists>cs. lg = lg0 @ cs \<and>
       map request_of cs
         = take (length cs) (map (\<lambda>ps. (MODEL_BASE rt @ fst ps, or_empty (snd ps))) as) \<and>
       (\<forall>c \<in> set (butlast cs). quiet rt (snd (snd c))) \<and>
       (r = None \<longrightarrow> length cs = length as \<and> (\<forall>c \<in> set cs. quiet rt (snd (snd c)))) \<and>
       (\<forall>res. r = Some res \<longrightarrow>
          cs \<noteq> [] \<and> \<not> quiet rt (snd (snd (last cs))) \<and> res = finish rt body (snd (snd (last cs))))"
proof (induction as arbitrary: u lg0)
  case Nil
  then show ?case by simp
next
  case (Cons ps as)
  obtain p shape where ps: "ps = (p, shape)" by (cases ps)
  obtain out u1 where q: "https_request rt u (MODEL_BASE rt @ p) (or_empty shape) = (out, u1)"
    by (cases "https_request rt u (MODEL_BASE rt @ p) (or_empty shape)")
  let ?c = "(MODEL_BASE rt @ p, or_empty shape, out)"
  show ?case
  proof (cases "quiet rt out")
    case False
    with Cons.prems ps q have "r = Some (finish rt body out)" "lg = lg0 @ [?c]"
      by (simp_all add: attempts_Cons https_request_recording del: attempts.simps)
    with False ps show ?thesis
      by (intro exI [of _ "[?c]"]) (simp add: request_of_def)
  next
    case True
    with Cons.prems ps q
    have "attempts (recording rt) body as (u1, lg0 @ [?c]) = (r, (u', lg))"
      by (simp add: attempts_Cons https_request_recording del: attempts.simps)
    from Cons.IH [OF this] obtain cs where cs:
      "lg = (lg0 @ [?c]) @ cs"
      "map request_of cs
         = take (length cs) (map (\<lambda>ps. (MODEL_BASE rt @ fst ps, or_empty (snd ps))) as)"
      "\<forall>c \<in> set (butlast cs). quiet rt (snd (snd c))"
      "r = None \<longrightarrow> length cs = length as \<and> (\<forall>c \<in> set cs. quiet rt (snd (snd c)))"
      "\<forall>res. r = Some res \<longrightarrow>
          cs \<noteq> [] \<and> \<not> quiet rt (snd (snd (last cs))) \<and> res = finish rt body (snd (snd (last cs)))"
      by blast
    have b: "\<forall>c \<in> set (butlast (?c # cs)). quiet rt (snd (snd c))"
      using cs(3) True by (cases cs) auto
    show ?thesis
    proof (intro exI [of _ "?c # cs"] conjI)
      show "lg = lg0 @ ?c # cs" using cs(1) by simp
      show "map request_of (?c # cs)
          = take (length (?c # cs))
              (map (\<lambda>ps. (MODEL_BASE rt @ fst ps, or_empty (snd ps))) (ps # as))"
        using cs(2) ps by (simp add: request_of_def)
      show "\<forall>c \<in> set (butlast (?c # cs)). quiet rt (snd (snd c))" by (rule b)
      show "r = None \<longrightarrow> length (?c # cs) = length (ps # as) \<and>
              (\<forall>c \<in> set (?c # cs). quiet rt (snd (snd c)))"
        using cs(4) True by simp
      show "\<forall>res. r = Some res \<longrightarrow>
              ?c # cs \<noteq> [] \<and> \<not> quiet rt (snd (snd (last (?c # cs)))) \<and>
              res = finish rt body (snd (snd (last (?c # cs))))"
        using cs(5) by auto
    qed
  qed
qed

lemma tryAllShapes_recording:
  assumes "tryAllShapes (recording rt) body (u, []) = (res, (u', lg))"
  shows "lg \<noteq> [] \<and> length lg \<le> 7 \<and>
     map request_of lg = take (length lg) (canonical_requests rt body) \<and>
     (\<forall>c \<in> set (butlast lg). quiet rt (snd (snd c))) \<and>
     res = finish rt body (snd (snd (last lg))) \<and>
     (quiet rt (snd (snd (last lg))) \<longrightarrow> length lg = 7)"
proof -
  let ?as = "[(''/predict'', body), (''/predict'', JObj [(''data'', body)]),
              (''/predict'', JObj [(''data'', JArr [body])]),
              (''/'', body), (''/'', JObj [(''data'', body)]),
              (''/'', JObj [(''data'', JArr [body])])]"
  let ?reqs = "map (\<lambda>ps. (MODEL_BASE rt @ fst ps, or_empty (snd ps))) ?as"
  have can: "canonical_requests rt body = ?reqs @ [(MODEL_BASE rt @ ''/predict'', or_empty body)]"
    by (simp add: canonical_requests_def or_empty_def)
  obtain r u1 lg1 where a: "attempts (recording rt) body ?as (u, []) = (r, (u1, lg1))"
    by (cases "attempts (recording rt) body ?as (u, [])") auto
  from attempts_recording [OF a] obtain cs where cs:
    "lg1 = cs" "map request_of cs = take (length cs) ?reqs"
    "\<forall>c \<in> set (butlast cs). quiet rt (snd (snd c))"
    "r = None \<longrightarrow> length cs = length ?as \<and> (\<forall>c \<in> set cs. quiet rt (snd (snd c)))"
    "\<forall>res. r = Some res \<longrightarrow>
        cs \<noteq> [] \<and> \<not> quiet rt (snd (snd (last cs))) \<and> res = finish rt body (snd (snd (last cs)))"
    by auto
  have len: "length cs \<le> 6"
    using arg_cong [OF cs(2), of length] by simp
  show ?thesis
  proof (cases r)
    case (Some res')
    with assms a have "res = res'" "lg = cs"
      by (simp_all add: tryAllShapes_eq cs(1) del: attempts.simps)
    moreover have "take (length cs) ?reqs = take (length cs) (canonical_requests rt body)"
      unfolding can by (rule take_prefix [symmetric]) (use len in simp)
    ultimately show ?thesis using cs(2,3,5) Some len by simp
  next
    case None
    obtain out u2 where q:
      "https_request rt u1 (MODEL_BASE rt @ ''/predict'') (or_empty body) = (out, u2)"
      by (cases "https_request rt u1 (MODEL_BASE rt @ ''/predict'') (or_empty body)")
    let ?c = "(MODEL_BASE rt @ ''/predict'', or_empty body, out)"
    from assms a None q have r: "res = finish rt body out" "lg = cs @ [?c]"
      by (simp_all add: tryAllShapes_eq cs(1) https_request_recording del: attempts.simps)
    have l6: "length cs = 6" using cs(4) None by simp
    then have "map request_of cs = ?reqs" using cs(2) by simp
    then have "map request_of lg = canonical_requests rt body"
      unfolding can r(2) by (simp add: request_of_def)
    moreover have "length lg = 7" using l6 r(2) by simp
    moreover have "\<forall>c \<in> set (butlast lg). quiet rt (snd (snd c))"
      using cs(4) None r(2) by simp
    ultimately show ?thesis using r by (simp add: canonical_requests_def)
  qed
qed

lemma attempts_finish:
  "attempts rt body as u = (Some r, u') \<Longrightarrow> \<exists>out. r = finish rt body out"
proof (induction as arbitrary: u)
  case Nil
  then show ?case by simp
next
  case (Cons ps as)
  obtain p shape where ps: "ps = (p, shape)" by (cases ps)
  obtain out u1 where q: "https_request rt u (MODEL_BASE rt @ p) (or_empty shape) = (out, u1)"
    by (cases "https_request rt u (MODEL_BASE rt @ p) (or_empty shape)")
  show ?case
  proof (cases "quiet rt out")
    case True
    with Cons.prems ps q have "attempts rt body as u1 = (Some r, u')"
      by (simp add: attempts_Cons del: attempts.simps)
    then show ?thesis by (rule Cons.IH)
  next
    case False
    with Cons.prems ps q have "r = finish rt body out"
      by (simp add: attempts_Cons del: attempts.simps)
    then show ?thesis by blast
  qed
qed

lemma tryAllShapes_finish: "\<exists>out. fst (tryAllShapes rt body u) = finish rt body out"
proof -
  let ?as = "[(''/predict'', body), (''/predict'', JObj [(''data'', body)]),
              (''/predict'', JObj [(''data'', JArr [body])]),
              (''/'', body), (''/'', JObj [(''data'', body)]),
              (''/'', JObj [(''data'', JArr [body])])]"
  obtain r u1 where a: "attempts rt body ?as u = (r, u1)"
    by (cases "attempts rt body ?as u")
  show ?thesis
  proof (cases r)
    case None
    with a show ?thesis
      by (auto simp: tryAllShapes_eq simp del: attempts.simps split: prod.split)
  next
    case (Some res)
    with a attempts_finish [of rt body ?as u res u1] show ?thesis
      by (auto simp: tryAllShapes_eq simp del: attempts.simps)
  qed
qed

lemma finish_fields:
  assumes "finish rt body out = Inr r"
  shows "(used_rule r = None) = (predicted_price r = None) \<and>
         (predicted_price_raw r = None) = (predicted_price r = None)"
  using assms by (auto simp: finish_def split: outcome.splits option.splits sum.splits)

subsection \<open>Concrete runs\<close>

lemma stub_engine:
  "arith stub_fourth = exact_arith" "string_number stub_fourth = exact_number"
  "arith stub_refused = exact_arith" "string_number stub_refused = exact_number"
  "arith stub_silent = exact_arith" "string_number stub_silent = exact_number"
  by (simp_all add: stub_fourth_def stub_refused_def stub_silent_def)

lemma miss_doc_number: "deepFindNumber exact_number (fst miss_doc) (snd miss_doc) = None"
  by (simp add: miss_doc_def deepFindNumber_def eval_keys eval_strings)

lemma price_doc_number: "deepFindNumber exact_number (fst price_doc) (snd price_doc) = Some (Fin 800)"
  by (simp add: price_doc_def deepFindNumber_def eval_keys)

lemma parse_miss:
  "parse_response stub_fourth ''no model here'' = miss_doc"
  "parse_response stub_refused ''no model here'' = miss_doc"
  "parse_response stub_silent ''no model here'' = miss_doc"
  by (simp_all add: parse_response_def stub_fourth_def stub_refused_def stub_silent_def miss_doc_def)

lemma parse_hit: "parse_response stub_fourth ''hit'' = price_doc"
  by (simp add: parse_response_def stub_fourth_def)

lemma quiet_miss:
  "quiet stub_fourth (Responded 404 ''no model here'')"
  "quiet stub_refused (Responded 404 ''no model here'')"
  "quiet stub_silent (Responded 404 ''no model here'')"
  by (simp_all add: quiet_def parse_miss miss_doc_number stub_engine)

lemma not_quiet_hit: "\<not> quiet stub_fourth (Responded 200 ''hit'')"
  by (simp add: quiet_def parse_hit price_doc_number stub_engine)


lemma finish_hit:
  "finish stub_fourth features_1200 (Responded 200 ''hit'') =
     Inr \<lparr>status = 200, raw = price_doc, predicted_price_raw = Some (Fin 800),
          predicted_price = Some (Fin 960000), used_rule = Some ''per_sqm''\<rparr>"
  by (simp add: finish_def parse_hit price_doc_number features_1200_def choose_800
      status_or_200_def stub_engine)

lemma stub_requests:
  "https_request stub_fourth n urlString b =
     (if n = 3 then Responded 200 ''hit'' else Responded 404 ''no model here'', Suc n)"
  "https_request stub_refused n urlString b =
     (if n = 1 then Failed (TransportError ''connect ECONNREFUSED'')
      else Responded 404 ''no model here'', Suc n)"
  "https_request stub_silent n urlString b = (Responded 404 ''no model here'', Suc n)"
  "MODEL_BASE stub_fourth = ''https://model''"
  "MODEL_BASE stub_refused = ''https://model''"
  "MODEL_BASE stub_silent = ''https://model''"
  by (simp_all add: stub_fourth_def stub_refused_def stub_silent_def)

lemma or_empty_JObj: "or_empty (JObj kvs) = JObj kvs"
  by (simp add: or_empty_def)

lemma features_truthy: "or_empty features_1200 = features_1200"
  by (simp add: features_1200_def or_empty_JObj)

lemma run_fourth:
  "tryAllShapes (recording stub_fourth) features_1200 (0, []) =
     (Inr \<lparr>status = 200, raw = price_doc, predicted_price_raw = Some (Fin 800),
           predicted_price = Some (Fin 960000), used_rule = Some ''per_sqm''\<rparr>,
      (4,
       [(''https://model/predict'', features_1200, Responded 404 ''no model here''),
        (''https://model/predict'', JObj [(''data'', features_1200)], Responded 404 ''no model here''),
        (''https://model/predict'', JObj [(''data'', JArr [features_1200])],
           Responded 404 ''no model here''),
        (''https://model/'', features_1200, Responded 200 ''hit'')]))"
  by (simp add: tryAllShapes_eq attempts_Cons https_request_recording stub_requests
      quiet_miss not_quiet_hit finish_hit features_truthy or_empty_JObj
      del: attempts.simps)

lemma run_fourth_plain:
  "tryAllShapes stub_fourth features_1200 0 =
     (Inr \<lparr>status = 200, raw = price_doc, predicted_price_raw = Some (Fin 800),
           predicted_price = Some (Fin 960000), used_rule = Some ''per_sqm''\<rparr>, 4)"
  by (simp add: tryAllShapes_eq attempts_Cons stub_requests
      quiet_miss not_quiet_hit finish_hit features_truthy or_empty_JObj
      del: attempts.simps)



subsection \<open>The claims\<close>

text \<open>
  Claim C2. The requests of a dispatch, in the order issued, are an initial part of the
  canonical list: \<open>/predict\<close> with the body, with the body under \<open>data\<close>, with the
  one-element array of the body under \<open>data\<close>; the same three for \<open>/\<close>; then \<open>/predict\<close>
  with the body once more. Every request but the last was answered without a number;
  when fewer than seven were made, the last one failed or yielded a finite number. So the
  dispatch stops at the first attempt that yields a number, and the seventh request is
  made exactly when none of the six does.
\<close>

theorem C2_attempt_order:
  assumes "tryAllShapes (recording rt) body (u, []) = (res, (u', lg))"
  shows "lg \<noteq> [] \<and> length lg \<le> 7 \<and>
     map request_of lg = take (length lg) (canonical_requests rt body) \<and>
     (\<forall>c \<in> set (butlast lg). \<not> failed c \<and> \<not> yields_number rt c) \<and>
     (length lg < 7 \<longrightarrow> failed (last lg) \<or> yields_number rt (last lg))"
  using tryAllShapes_recording [OF assms] by (auto simp: quiet_iff)

theorem C2_witness:
  "tryAllShapes (recording stub_fourth) features_1200 (0, []) =
     (Inr \<lparr>status = 200, raw = price_doc, predicted_price_raw = Some (Fin 800),
           predicted_price = Some (Fin 960000), used_rule = Some ''per_sqm''\<rparr>,
      (4,
       [(''https://model/predict'', features_1200, Responded 404 ''no model here''),
        (''https://model/predict'', JObj [(''data'', features_1200)], Responded 404 ''no model here''),
        (''https://model/predict'', JObj [(''data'', JArr [features_1200])],
           Responded 404 ''no model here''),
        (''https://model/'', features_1200, Responded 200 ''hit'')])) \<and>
   yields_number stub_fourth (''https://model/'', features_1200, Responded 200 ''hit'')"
proof -
  note r = run_fourth
  from C2_attempt_order [OF r] have "yields_number stub_fourth
      (''https://model/'', features_1200, Responded 200 ''hit'')"
    by (simp add: failed_def)
  with r show ?thesis by blast
qed

text \<open>
  Claim C7. In every result that \<open>tryAllShapes\<close> returns, from inside the loop or after
  the last attempt, \<open>used_rule\<close> is \<open>null\<close> exactly when \<open>predicted_price\<close> is.
\<close>

theorem C7_rule_iff_price:
  assumes "tryAllShapes rt body u = (Inr r, u')"
  shows "(used_rule r = None) = (predicted_price r = None)"
proof -
  from tryAllShapes_finish [of rt body u] assms obtain out where "finish rt body out = Inr r"
    by auto
  then show ?thesis using finish_fields by blast
qed

theorem C7_witness:
  "tryAllShapes stub_fourth features_1200 0 =
     (Inr \<lparr>status = 200, raw = price_doc, predicted_price_raw = Some (Fin 800),
           predicted_price = Some (Fin 960000), used_rule = Some ''per_sqm''\<rparr>, 4) \<and>
   (used_rule \<lparr>status = 200, raw = price_doc, predicted_price_raw = Some (Fin 800),
           predicted_price = Some (Fin 960000), used_rule = Some ''per_sqm''\<rparr> = None)
     = (predicted_price \<lparr>status = 200, raw = price_doc, predicted_price_raw = Some (Fin 800),
           predicted_price = Some (Fin 960000), used_rule = Some ''per_sqm''\<rparr> = None)"
  using C7_rule_iff_price [OF run_fourth_plain] run_fourth_plain by blast



end
